theory Spec2Isabelle
  imports Complex_Main
begin

section \<open>Data model\<close>

text \<open>
  The two strategies of the repository, \<^verbatim>\<open>dynamic_spread.py\<close> (the volatility variant) and
  \<^verbatim>\<open>rolling_regression.py\<close> (the regression variant), share their bookkeeping code line for
  line: the \<^verbatim>\<open>throttler\<close> decorator, \<^verbatim>\<open>check_hedge\<close>, \<^verbatim>\<open>on_order_filled_message\<close>,
  \<^verbatim>\<open>on_order_status_message\<close>, \<^verbatim>\<open>on_error_message\<close> and \<^verbatim>\<open>adjust_price\<close>. The shared
  fields of \<^verbatim>\<open>AutoTrader\<close> are a record, extended once per variant.

  Python's \<^verbatim>\<open>int\<close> is \<^typ>\<open>int\<close>. A Python \<^verbatim>\<open>float\<close> is an IEEE 754 double; it is
  represented by the real number it denotes. The clocks \<^verbatim>\<open>time.time()\<close> and
  \<^verbatim>\<open>time.monotonic()\<close> are read by the callbacks; every reading is an explicit argument of
  the model, and the difference of two readings is rounded as the hardware rounds it
  (\<open>float_sub\<close> below). The arithmetic of the quoting code (spreads, prices before they are
  rounded to the tick) is idealised: it is carried out in \<^typ>\<open>real\<close> without rounding.
\<close>

text \<open>\<^verbatim>\<open>Side\<close>, \<^verbatim>\<open>Instrument\<close> and \<^verbatim>\<open>Lifespan\<close> come from the exchange library
  \<^verbatim>\<open>ready_trader_go\<close>; in \<^verbatim>\<open>Side\<close> the names \<^verbatim>\<open>BID\<close> and \<^verbatim>\<open>ASK\<close> are aliases of
  \<^verbatim>\<open>BUY\<close> and \<^verbatim>\<open>SELL\<close>.\<close>

datatype side = SELL | BUY

abbreviation BID :: side where "BID \<equiv> BUY"
abbreviation ASK :: side where "ASK \<equiv> SELL"

datatype instrument = FUTURE | ETF

datatype lifespan = FILL_AND_KILL | GOOD_FOR_DAY

text \<open>What a handler can raise.\<close>

datatype py_error = IndexError | RecursionError

text \<open>Callbacks handed to \<^verbatim>\<open>event_loop.call_later\<close>, and the calls a handler makes on the
  gateway and on the event loop, in the order it makes them.\<close>

datatype callback = CheckHedgeCb | CancelOrderCb int

datatype action =
    SendInsertOrder int side int int lifespan
  | SendCancelOrder int
  | SendHedgeOrder int side int int
  | CallLater real callback

record trader =
  order_ids :: int
  bids :: "int set"
  asks :: "int set"
  position :: int
  hedge_balance :: int
  hedge_time :: "real option"
  bidq :: "int list"
  askq :: "int list"
  send_calls :: "real list"

text \<open>\<^verbatim>\<open>order_ids\<close> holds the next value of \<^verbatim>\<open>itertools.count(1)\<close>; \<^verbatim>\<open>send_calls\<close> is the
  \<^verbatim>\<open>call_times\<close> deque closed over by the decorated \<^verbatim>\<open>send_throttled\<close>.\<close>

record vol_trader = trader +
  recent_prices :: "int list"
  cancel_calls :: "real list"

record reg_trader = trader +
  etf_prices :: "int list"
  fut_prices :: "int list"

subsection \<open>Constants\<close>

definition LOT_SIZE :: int where "LOT_SIZE = 10"
definition POSITION_LIMIT :: int where "POSITION_LIMIT = 100"
definition TICK_SIZE_IN_CENTS :: int where "TICK_SIZE_IN_CENTS = 100"

text \<open>\<^verbatim>\<open>MINIMUM_BID\<close> and \<^verbatim>\<open>MAXIMUM_ASK\<close> are imported from \<^verbatim>\<open>ready_trader_go\<close>; they are
  parameters here.\<close>

definition MIN_BID_NEAREST_TICK :: "int \<Rightarrow> int" where
  "MIN_BID_NEAREST_TICK minimum_bid =
     (minimum_bid + TICK_SIZE_IN_CENTS) div TICK_SIZE_IN_CENTS * TICK_SIZE_IN_CENTS"

definition MAX_ASK_NEAREST_TICK :: "int \<Rightarrow> int" where
  "MAX_ASK_NEAREST_TICK maximum_ask = maximum_ask div TICK_SIZE_IN_CENTS * TICK_SIZE_IN_CENTS"

definition HEDGE_BOUNDARY :: int where "HEDGE_BOUNDARY = 10"
definition HEDGE_TIME_LIMIT :: real where "HEDGE_TIME_LIMIT = 58"

section \<open>Subtraction of doubles\<close>

text \<open>
  The result of an IEEE 754 operation on doubles is the exact result rounded to the nearest
  double, a tie going to the double with the even significand. A double has a significand
  of 53 bits; \<open>float_exponent x\<close> is the exponent of the binade of \<open>x\<close>, not below that of the
  subnormal numbers, so that \<open>2 powr (float_exponent x - 52)\<close> is the spacing of the doubles
  around \<open>x\<close>. Overflow to infinity is not modelled: differences of clock readings are far
  from it.
\<close>

definition round_half_even :: "real \<Rightarrow> int" where
  "round_half_even x =
     (let n = \<lfloor>x\<rfloor>; r = x - real_of_int n
      in if r < 1 / 2 then n else if r > 1 / 2 then n + 1 else if even n then n else n + 1)"

definition float_exponent :: "real \<Rightarrow> int" where
  "float_exponent x = max \<lfloor>log 2 \<bar>x\<bar>\<rfloor> (- 1022)"

definition float_round :: "real \<Rightarrow> real" where
  "float_round x =
     (if x = 0 then 0
      else real_of_int (round_half_even (x / 2 powr real_of_int (float_exponent x - 52)))
           * 2 powr real_of_int (float_exponent x - 52))"

text \<open>\<^verbatim>\<open>x - y\<close> for doubles \<open>x\<close> and \<open>y\<close>.\<close>

definition float_sub :: "real \<Rightarrow> real \<Rightarrow> real" where
  "float_sub x y = float_round (x - y)"

section \<open>The hedge controller\<close>

text \<open>\<^verbatim>\<open>check_hedge\<close>; \<open>now\<close> is the reading of \<^verbatim>\<open>time.time()\<close>. The condition is evaluated
  left to right, so the clock is compared only when the timer is set.\<close>

definition check_hedge ::
  "int \<Rightarrow> int \<Rightarrow> real \<Rightarrow> 'a trader_scheme \<Rightarrow> 'a trader_scheme \<times> action list" where
  "check_hedge minimum_bid maximum_ask now s =
     (case hedge_time s of
        None \<Rightarrow> (s, [CallLater 1 CheckHedgeCb])
      | Some t \<Rightarrow>
          if float_sub now t > HEDGE_TIME_LIMIT
             \<and> (hedge_balance s > HEDGE_BOUNDARY \<or> hedge_balance s < - HEDGE_BOUNDARY)
          then
            (if hedge_balance s > 0
             then (s\<lparr>order_ids := order_ids s + 1, hedge_balance := HEDGE_BOUNDARY,
                     hedge_time := None\<rparr>,
                   [SendHedgeOrder (order_ids s) BID (MAX_ASK_NEAREST_TICK maximum_ask)
                      (\<bar>hedge_balance s\<bar> - HEDGE_BOUNDARY),
                    CallLater 1 CheckHedgeCb])
             else (s\<lparr>order_ids := order_ids s + 1, hedge_balance := - HEDGE_BOUNDARY,
                     hedge_time := None\<rparr>,
                   [SendHedgeOrder (order_ids s) ASK (MIN_BID_NEAREST_TICK minimum_bid)
                      (\<bar>hedge_balance s\<bar> - HEDGE_BOUNDARY),
                    CallLater 1 CheckHedgeCb]))
          else (s, [CallLater 1 CheckHedgeCb]))"



text \<open>States used to exercise the hedge controller: imbalance \<open>+15\<close> armed at time 100,
  imbalance \<open>-15\<close> armed at time 100, and imbalance \<open>+15\<close> armed at time \<open>1 / 2 ^ 48\<close>.\<close>

definition armed_example :: trader where
  "armed_example = \<lparr>order_ids = 7, bids = {}, asks = {}, position = - 15, hedge_balance = 15,
     hedge_time = Some 100, bidq = [], askq = [], send_calls = []\<rparr>"



section \<open>The rate limiter\<close>

text \<open>
  \<^verbatim>\<open>throttler(func)\<close> closes over a deque \<^verbatim>\<open>call_times\<close> of at most \<^verbatim>\<open>max_calls\<close> clock
  readings. \<^verbatim>\<open>deque(maxlen=n).append\<close> drops from the left once the deque is full.
\<close>

definition max_calls :: nat where "max_calls = 47"
definition interval :: real where "interval = 1"

definition deque_append :: "nat \<Rightarrow> 'a list \<Rightarrow> 'a \<Rightarrow> 'a list" where
  "deque_append maxlen xs x = (let ys = xs @ [x] in drop (length ys - maxlen) ys)"

text \<open>The test that makes \<^verbatim>\<open>wrapper\<close> return \<^verbatim>\<open>None\<close> at once; \<open>now\<close> is the reading of
  \<^verbatim>\<open>time.monotonic()\<close>. The length is tested first, so \<^verbatim>\<open>call_times[0]\<close> exists. The
  difference of the two doubles is a double again.\<close>

definition throttled :: "real \<Rightarrow> real list \<Rightarrow> bool" where
  "throttled now call_times \<longleftrightarrow>
     length call_times = max_calls \<and> float_sub now (hd call_times) < interval"

text \<open>
  The decorator. The deque lives in the state \<open>'s\<close> of the model and is reached through
  a selector and a setter; \<open>func\<close> is the wrapped function, which returns the new
  state and what it did; \<open>none\<close> is the result that stands for the early \<^verbatim>\<open>return None\<close>.
\<close>

definition throttler ::
  "('s \<Rightarrow> real list) \<Rightarrow> (real list \<Rightarrow> 's \<Rightarrow> 's) \<Rightarrow> ('s \<Rightarrow> 's \<times> 'r) \<Rightarrow> 'r
     \<Rightarrow> real \<Rightarrow> 's \<Rightarrow> 's \<times> 'r" where
  "throttler call_times set_call_times func none now s =
     (if throttled now (call_times s) then (s, none)
      else func (set_call_times (deque_append max_calls (call_times s) now) s))"

text \<open>A sequence of calls of one decorated function, seen from its deque alone: the clock
  readings of the calls, in order, and the readings of those that were let through.\<close>

fun accepted_calls :: "real list \<Rightarrow> real list \<Rightarrow> real list" where
  "accepted_calls call_times [] = []"
| "accepted_calls call_times (now # rest) =
     (case throttler id (\<lambda>c _. c) (\<lambda>c. (c, True)) False now call_times of
        (call_times', accepted) \<Rightarrow>
          (if accepted then [now] else []) @ accepted_calls call_times' rest)"

text \<open>The readings in a list that lie in the trailing window of length \<open>len\<close> that ends at
  \<open>T\<close>, the start of the window excluded.\<close>

definition in_window :: "real \<Rightarrow> real \<Rightarrow> real \<Rightarrow> bool" where
  "in_window len T t \<longleftrightarrow> T - len < t \<and> t \<le> T"

definition count_in_window :: "real \<Rightarrow> real \<Rightarrow> real list \<Rightarrow> nat" where
  "count_in_window len T ts = length (filter (in_window len T) ts)"

text \<open>Auxiliary: a sorted list in which any entry and the entry \<open>max_calls\<close> places later are
  at least \<open>gap\<close> apart.\<close>

definition spaced :: "real \<Rightarrow> real list \<Rightarrow> bool" where
  "spaced gap A \<longleftrightarrow>
     sorted A \<and> (\<forall>i. i + max_calls < length A \<longrightarrow> A ! i + gap \<le> A ! (i + max_calls))"

text \<open>The doubles nearest to 0.2 and to 1.2, and a burst of 47 calls at the first followed by
  one call at the second.\<close>

definition double_02 :: real where "double_02 = 3602879701896397 / 2 ^ 54"
definition double_12 :: real where "double_12 = 5404319552844595 / 2 ^ 52"

definition burst_readings :: "real list" where
  "burst_readings = replicate 47 double_02 @ [double_12]"

text \<open>A burst of 47 calls at time 0 and calls at 0, at 0.5 and at 1.\<close>

definition paced_readings :: "real list" where
  "paced_readings = replicate 47 0 @ [0, 1 / 2, 1]"

section \<open>Order tracking\<close>

text \<open>
  The body of \<^verbatim>\<open>send_throttled\<close>. The two files differ in the last line only: the volatility
  variant also schedules \<^verbatim>\<open>cancel_order\<close> ten time units later.
\<close>

definition send_throttled_body_vol ::
  "int \<Rightarrow> side \<Rightarrow> int \<Rightarrow> int \<Rightarrow> 'a trader_scheme \<Rightarrow> 'a trader_scheme \<times> action list" where
  "send_throttled_body_vol client_order_id sd price volume s =
     (if sd = BUY then
        (if length (bidq s) \<ge> 4 then (s, [])
         else (s\<lparr>bidq := bidq s @ [client_order_id],
                 bids := insert client_order_id (bids s)\<rparr>,
               [SendInsertOrder client_order_id sd price volume GOOD_FOR_DAY,
                CallLater 10 (CancelOrderCb client_order_id)]))
      else
        (if length (askq s) \<ge> 4 then (s, [])
         else (s\<lparr>askq := askq s @ [client_order_id],
                 asks := insert client_order_id (asks s)\<rparr>,
               [SendInsertOrder client_order_id sd price volume GOOD_FOR_DAY,
                CallLater 10 (CancelOrderCb client_order_id)])))"

definition send_throttled_body_reg ::
  "int \<Rightarrow> side \<Rightarrow> int \<Rightarrow> int \<Rightarrow> 'a trader_scheme \<Rightarrow> 'a trader_scheme \<times> action list" where
  "send_throttled_body_reg client_order_id sd price volume s =
     (if sd = BUY then
        (if length (bidq s) \<ge> 4 then (s, [])
         else (s\<lparr>bidq := bidq s @ [client_order_id],
                 bids := insert client_order_id (bids s)\<rparr>,
               [SendInsertOrder client_order_id sd price volume GOOD_FOR_DAY]))
      else
        (if length (askq s) \<ge> 4 then (s, [])
         else (s\<lparr>askq := askq s @ [client_order_id],
                 asks := insert client_order_id (asks s)\<rparr>,
               [SendInsertOrder client_order_id sd price volume GOOD_FOR_DAY])))"

definition send_throttled_vol ::
  "real \<Rightarrow> int \<Rightarrow> side \<Rightarrow> int \<Rightarrow> int \<Rightarrow> 'a trader_scheme \<Rightarrow> 'a trader_scheme \<times> action list" where
  "send_throttled_vol now client_order_id sd price volume =
     throttler send_calls (\<lambda>c s. s\<lparr>send_calls := c\<rparr>)
       (send_throttled_body_vol client_order_id sd price volume) [] now"

definition send_throttled_reg ::
  "real \<Rightarrow> int \<Rightarrow> side \<Rightarrow> int \<Rightarrow> int \<Rightarrow> 'a trader_scheme \<Rightarrow> 'a trader_scheme \<times> action list" where
  "send_throttled_reg now client_order_id sd price volume =
     throttler send_calls (\<lambda>c s. s\<lparr>send_calls := c\<rparr>)
       (send_throttled_body_reg client_order_id sd price volume) [] now"

text \<open>
  \<^verbatim>\<open>cancel_order\<close> of the volatility variant. Its body calls \<^verbatim>\<open>self.cancel_order\<close>, that is
  the decorated method again, so every call that the limiter lets through makes the next
  call. \<open>clock k\<close> is the \<open>k\<close>-th reading of \<^verbatim>\<open>time.monotonic()\<close>; \<open>depth\<close> counts the nested
  calls the interpreter stack still admits, and \<^verbatim>\<open>RecursionError\<close> is raised when it is
  used up. The readings recorded by then stay in the deque.
\<close>

primrec cancel_order ::
  "nat \<Rightarrow> (nat \<Rightarrow> real) \<Rightarrow> nat \<Rightarrow> int \<Rightarrow> vol_trader \<Rightarrow> vol_trader \<times> (py_error + action list)" where
  "cancel_order 0 clock k client_order_id s = (s, Inl RecursionError)"
| "cancel_order (Suc depth) clock k client_order_id s =
     throttler cancel_calls (\<lambda>c s. s\<lparr>cancel_calls := c\<rparr>)
       (cancel_order depth clock (Suc k) client_order_id) (Inr []) (clock k) s"

text \<open>\<^verbatim>\<open>on_order_filled_message\<close>; \<open>now\<close> is the reading of \<^verbatim>\<open>time.time()\<close>, taken only in
  the two branches that set the timer.\<close>

definition on_order_filled_message ::
  "real \<Rightarrow> int \<Rightarrow> int \<Rightarrow> int \<Rightarrow> 'a trader_scheme \<Rightarrow> 'a trader_scheme" where
  "on_order_filled_message now client_order_id price volume s =
     (let pre = hedge_balance s;
          s1 = (if client_order_id \<in> bids s \<or> client_order_id \<in> set (bidq s)
                then s\<lparr>position := position s + volume,
                       hedge_balance := hedge_balance s - volume\<rparr>
                else if client_order_id \<in> asks s \<or> client_order_id \<in> set (askq s)
                then s\<lparr>position := position s - volume,
                       hedge_balance := hedge_balance s + volume\<rparr>
                else s)
      in if hedge_balance s1 \<ge> - HEDGE_BOUNDARY \<and> hedge_balance s1 \<le> HEDGE_BOUNDARY
         then s1\<lparr>hedge_time := None\<rparr>
         else if (pre > 0 \<and> hedge_balance s1 < 0) \<or> (pre < 0 \<and> hedge_balance s1 > 0)
         then s1\<lparr>hedge_time := Some now\<rparr>
         else if (hedge_balance s1 > HEDGE_BOUNDARY \<or> hedge_balance s1 < - HEDGE_BOUNDARY)
                 \<and> hedge_time s1 = None
         then s1\<lparr>hedge_time := Some now\<rparr>
         else s1)"

text \<open>\<^verbatim>\<open>on_order_status_message\<close>. \<^verbatim>\<open>deque.remove\<close> deletes the first occurrence and raises
  \<^verbatim>\<open>ValueError\<close>, caught at once, when there is none: that is \<^const>\<open>remove1\<close>.\<close>

definition on_order_status_message ::
  "int \<Rightarrow> int \<Rightarrow> int \<Rightarrow> int \<Rightarrow> 'a trader_scheme \<Rightarrow> 'a trader_scheme" where
  "on_order_status_message client_order_id fill_volume remaining_volume fees s =
     (if remaining_volume = 0 then
        (if client_order_id \<in> bids s \<or> client_order_id \<in> set (bidq s)
         then s\<lparr>bids := bids s - {client_order_id},
                bidq := remove1 client_order_id (bidq s)\<rparr>
         else if client_order_id \<in> asks s \<or> client_order_id \<in> set (askq s)
         then s\<lparr>asks := asks s - {client_order_id},
                askq := remove1 client_order_id (askq s)\<rparr>
         else s)
      else s)"

text \<open>\<^verbatim>\<open>on_error_message\<close>; the message is only logged.\<close>

definition on_error_message :: "int \<Rightarrow> 'a trader_scheme \<Rightarrow> 'a trader_scheme" where
  "on_error_message client_order_id s =
     (if client_order_id \<noteq> 0 \<and> (client_order_id \<in> bids s \<or> client_order_id \<in> asks s)
      then on_order_status_message client_order_id 0 0 0 s
      else s)"

section \<open>Quoting\<close>

subsection \<open>Statistics and rounding\<close>

text \<open>
  \<^verbatim>\<open>np.mean\<close> and \<^verbatim>\<open>np.std\<close> (the population standard deviation, \<^verbatim>\<open>ddof=0\<close>) over the
  reals. \<^verbatim>\<open>np.polyfit(x, y, deg=1)[0]\<close> is the slope of the least-squares line of \<open>y\<close> on
  \<open>x\<close>; the handlers below take the fitting routine as a parameter, and \<open>lstsq_slope\<close> is
  the exact least-squares slope for abscissae that are not all equal.
\<close>

definition np_mean :: "real list \<Rightarrow> real" where
  "np_mean xs = sum_list xs / real (length xs)"

definition np_std :: "real list \<Rightarrow> real" where
  "np_std xs = sqrt (np_mean (map (\<lambda>x. (x - np_mean xs)\<^sup>2) xs))"

definition lstsq_slope :: "real list \<Rightarrow> real list \<Rightarrow> real" where
  "lstsq_slope xs ys =
     (let n = real (length xs);
          sx = sum_list xs;
          sy = sum_list ys;
          sxy = sum_list (map2 (*) xs ys);
          sxx = sum_list (map (\<lambda>x. x * x) xs)
      in (n * sxy - sx * sy) / (n * sxx - sx * sx))"

text \<open>\<^verbatim>\<open>adjust_price\<close>: \<^verbatim>\<open>int(price // TICK_SIZE_IN_CENTS) * TICK_SIZE_IN_CENTS\<close>, where
  \<^verbatim>\<open>//\<close> is floor division. It is called with floats and, in the regression variant, with
  the integers it returned before.\<close>

definition adjust_price :: "real \<Rightarrow> int" where
  "adjust_price price = \<lfloor>price / real_of_int TICK_SIZE_IN_CENTS\<rfloor> * TICK_SIZE_IN_CENTS"

subsection \<open>Volatility variant\<close>

definition AVG_WINDOW_vol :: nat where "AVG_WINDOW_vol = 50"
definition MAKER_FEE :: real where "MAKER_FEE = 1 / 10000"
definition TAKER_FEE :: real where "TAKER_FEE = 2 / 10000"
definition ORDER_THRESHOLD :: int where "ORDER_THRESHOLD = 50"
definition MAX_POSITION_FACTOR :: real where "MAX_POSITION_FACTOR = 2"
definition SENSITIVITY_FACTOR :: real where "SENSITIVITY_FACTOR = 2 / 100"
definition REBALANCING_THRESHOLD :: int where "REBALANCING_THRESHOLD = 80"

definition calculate_position_factor :: "int \<Rightarrow> real" where
  "calculate_position_factor pos =
     1 + (MAX_POSITION_FACTOR - 1)
         * (real_of_int \<bar>pos\<bar> / real_of_int POSITION_LIMIT) powr SENSITIVITY_FACTOR"

text \<open>Lines 81 to 99 of \<^verbatim>\<open>dynamic_spread.py\<close>: the pair \<^verbatim>\<open>(new_bid_price, new_ask_price)\<close> from the
  window (the new mid price already appended), the mid price and the position.\<close>

definition quote_prices_vol :: "int list \<Rightarrow> int \<Rightarrow> int \<Rightarrow> int \<times> int" where
  "quote_prices_vol window mid_price pos =
     (let price_volatility = np_std (map real_of_int window);
          base_spread_percentage = 1 / 1000 + (TAKER_FEE - MAKER_FEE);
          spread_percentage =
            base_spread_percentage + (1 / 2) * (price_volatility / real_of_int mid_price);
          position_factor = calculate_position_factor pos;
          (new_bid_price, new_ask_price) =
            (if pos > ORDER_THRESHOLD then
               (adjust_price (real_of_int mid_price * (1 - spread_percentage * position_factor)),
                adjust_price (real_of_int mid_price * (1 + spread_percentage)))
             else if pos < - ORDER_THRESHOLD then
               (adjust_price (real_of_int mid_price * (1 - spread_percentage)),
                adjust_price (real_of_int mid_price * (1 + spread_percentage * position_factor)))
             else
               (adjust_price (real_of_int mid_price * (1 - spread_percentage)),
                adjust_price (real_of_int mid_price * (1 + spread_percentage))))
      in if pos \<ge> REBALANCING_THRESHOLD then
           (new_bid_price,
            adjust_price (real_of_int new_ask_price
                          - real_of_int (new_ask_price - new_bid_price) * (1 / 2)))
         else if pos \<le> - REBALANCING_THRESHOLD then
           (adjust_price (real_of_int new_bid_price
                          + real_of_int (new_ask_price - new_bid_price) * (1 / 2)),
            new_ask_price)
         else (new_bid_price, new_ask_price))"

subsection \<open>Regression variant\<close>

definition AVG_WINDOW_reg :: nat where "AVG_WINDOW_reg = 10"
definition HEDGE_RATIO_LOOKBACK :: nat where "HEDGE_RATIO_LOOKBACK = 10"
definition CONSERVATIVE_SPREAD :: real where "CONSERVATIVE_SPREAD = 2 / 1000"
definition NORMAL_SPREAD :: real where "NORMAL_SPREAD = 1 / 1000"

definition calculate_hedge_ratio ::
  "(real list \<Rightarrow> real list \<Rightarrow> real) \<Rightarrow> reg_trader \<Rightarrow> real option" where
  "calculate_hedge_ratio polyfit s =
     (if length (etf_prices s) < HEDGE_RATIO_LOOKBACK
         \<or> length (fut_prices s) < HEDGE_RATIO_LOOKBACK
      then None
      else Some (polyfit (map real_of_int (etf_prices s)) (map real_of_int (fut_prices s))))"

text \<open>Line 90 of \<^verbatim>\<open>rolling_regression.py\<close>. The two arrays have the same length whenever the
  line is reached: both deques then hold exactly ten prices.\<close>

definition spread_series :: "real \<Rightarrow> int list \<Rightarrow> int list \<Rightarrow> real list" where
  "spread_series hedge_ratio etf fut =
     map2 (\<lambda>e f. real_of_int e - hedge_ratio * real_of_int f) etf fut"

text \<open>Lines 92 to 103: \<^verbatim>\<open>(new_bid_price, new_ask_price)\<close> from the spread series and the mid
  price.\<close>

definition quote_prices_reg :: "real list \<Rightarrow> int \<Rightarrow> int \<times> int" where
  "quote_prices_reg spread mid_price =
     (let (new_ask_price, new_bid_price) =
            (if length spread > 0 \<and> last spread > np_mean spread + np_std spread then
               (adjust_price (real_of_int mid_price * (1 + CONSERVATIVE_SPREAD)),
                adjust_price (real_of_int mid_price * (1 - NORMAL_SPREAD)))
             else if length spread > 0 \<and> last spread < np_mean spread - np_std spread then
               (adjust_price (real_of_int mid_price * (1 + NORMAL_SPREAD)),
                adjust_price (real_of_int mid_price * (1 - CONSERVATIVE_SPREAD)))
             else
               (adjust_price (real_of_int mid_price * (1 + NORMAL_SPREAD)),
                adjust_price (real_of_int mid_price * (1 - NORMAL_SPREAD))));
          new_ask_price = adjust_price (real_of_int new_ask_price);
          new_bid_price = adjust_price (real_of_int new_bid_price)
      in (new_bid_price, new_ask_price))"

subsection \<open>Exposure, eviction and submission\<close>

text \<open>
  The tail of \<^verbatim>\<open>on_order_book_update_message\<close>, the same in both files but for the
  \<^verbatim>\<open>send_throttled\<close> it calls (a parameter here): the remaining capacity of each side from
  the position and the queue lengths as they are on entry, then eviction of the oldest
  queued id of a full queue through the gateway's \<^verbatim>\<open>send_cancel_order\<close>, then the two
  sends. \<open>now_bid\<close> and \<open>now_ask\<close> are the readings of \<^verbatim>\<open>time.monotonic()\<close> in the send of
  the bid and of the ask, when these are made.
\<close>

text \<open>The four steps, in the order of the source: lines 106 to 108, 109 to 111, 113 to 116
  and 118 to 121 of \<^verbatim>\<open>dynamic_spread.py\<close>.\<close>

definition evict_oldest_bid :: "'a trader_scheme \<Rightarrow> 'a trader_scheme \<times> action list" where
  "evict_oldest_bid s =
     (if length (bidq s) \<ge> 4
      then (s\<lparr>bidq := tl (bidq s)\<rparr>, [SendCancelOrder (hd (bidq s))])
      else (s, []))"

definition evict_oldest_ask :: "'a trader_scheme \<Rightarrow> 'a trader_scheme \<times> action list" where
  "evict_oldest_ask s =
     (if length (askq s) \<ge> 4
      then (s\<lparr>askq := tl (askq s)\<rparr>, [SendCancelOrder (hd (askq s))])
      else (s, []))"

definition submit_bid ::
  "(real \<Rightarrow> int \<Rightarrow> side \<Rightarrow> int \<Rightarrow> int \<Rightarrow> 'a trader_scheme \<Rightarrow> 'a trader_scheme \<times> action list)
     \<Rightarrow> real \<Rightarrow> int \<Rightarrow> int \<Rightarrow> 'a trader_scheme \<Rightarrow> 'a trader_scheme \<times> action list" where
  "submit_bid send now_bid new_bid_price remaining_long s =
     (if new_bid_price \<noteq> 0 \<and> remaining_long > 0
      then send now_bid (order_ids s) BUY new_bid_price (min LOT_SIZE remaining_long)
             (s\<lparr>order_ids := order_ids s + 1\<rparr>)
      else (s, []))"

definition submit_ask ::
  "(real \<Rightarrow> int \<Rightarrow> side \<Rightarrow> int \<Rightarrow> int \<Rightarrow> 'a trader_scheme \<Rightarrow> 'a trader_scheme \<times> action list)
     \<Rightarrow> real \<Rightarrow> int \<Rightarrow> int \<Rightarrow> 'a trader_scheme \<Rightarrow> 'a trader_scheme \<times> action list" where
  "submit_ask send now_ask new_ask_price remaining_short s =
     (if new_ask_price \<noteq> 0 \<and> remaining_short > 0
      then send now_ask (order_ids s) SELL new_ask_price (min LOT_SIZE remaining_short)
             (s\<lparr>order_ids := order_ids s + 1\<rparr>)
      else (s, []))"

definition submit_quotes ::
  "(real \<Rightarrow> int \<Rightarrow> side \<Rightarrow> int \<Rightarrow> int \<Rightarrow> 'a trader_scheme \<Rightarrow> 'a trader_scheme \<times> action list)
     \<Rightarrow> real \<Rightarrow> real \<Rightarrow> int \<Rightarrow> int \<Rightarrow> 'a trader_scheme \<Rightarrow> 'a trader_scheme \<times> action list" where
  "submit_quotes send now_bid now_ask new_bid_price new_ask_price s =
     (let exposure_long = int (length (bidq s)) * LOT_SIZE;
          exposure_short = int (length (askq s)) * LOT_SIZE;
          remaining_long = max 0 (POSITION_LIMIT - position s - exposure_long);
          remaining_short = max 0 (POSITION_LIMIT + position s - exposure_short);
          (s1, a1) = evict_oldest_bid s;
          (s2, a2) = evict_oldest_ask s1;
          (s3, a3) = submit_bid send now_bid new_bid_price remaining_long s2;
          (s4, a4) = submit_ask send now_ask new_ask_price remaining_short s3
      in (s4, a1 @ a2 @ a3 @ a4))"

subsection \<open>The order-book handlers\<close>

text \<open>
  \<^verbatim>\<open>on_order_book_update_message\<close> of \<^verbatim>\<open>dynamic_spread.py\<close>. The guard is evaluated left to
  right: \<^verbatim>\<open>bid_prices[0]\<close> is read only for the future, \<^verbatim>\<open>ask_prices[0]\<close> only after a
  positive best bid; reading an empty list raises \<^verbatim>\<open>IndexError\<close>.
\<close>

definition on_order_book_update_message_vol ::
  "real \<Rightarrow> real \<Rightarrow> instrument \<Rightarrow> int \<Rightarrow> int list \<Rightarrow> int list \<Rightarrow> int list \<Rightarrow> int list
     \<Rightarrow> vol_trader \<Rightarrow> vol_trader \<times> (py_error + action list)" where
  "on_order_book_update_message_vol now_bid now_ask instr sequence_number
       ask_prices ask_volumes bid_prices bid_volumes s =
     (if instr \<noteq> FUTURE then (s, Inr [])
      else case bid_prices of
        [] \<Rightarrow> (s, Inl IndexError)
      | bid0 # _ \<Rightarrow>
          if \<not> bid0 > 0 then (s, Inr [])
          else case ask_prices of
            [] \<Rightarrow> (s, Inl IndexError)
          | ask0 # _ \<Rightarrow>
              if \<not> ask0 > 0 then (s, Inr [])
              else
                let mid_price = (bid0 + ask0) div 2;
                    s1 = s\<lparr>recent_prices :=
                             deque_append AVG_WINDOW_vol (recent_prices s) mid_price\<rparr>;
                    (new_bid_price, new_ask_price) =
                      quote_prices_vol (recent_prices s1) mid_price (position s1);
                    (s2, acts) =
                      submit_quotes send_throttled_vol now_bid now_ask
                        new_bid_price new_ask_price s1
                in (s2, Inr acts))"

text \<open>
  \<^verbatim>\<open>on_order_book_update_message\<close> of \<^verbatim>\<open>rolling_regression.py\<close>. The early return needs
  both best prices to be non-positive. An instrument is the future or the ETF, so
  \<^verbatim>\<open>ask_prices[0]\<close> is read at the latest when the mid price is appended.
\<close>

definition on_order_book_update_message_reg ::
  "(real list \<Rightarrow> real list \<Rightarrow> real) \<Rightarrow> real \<Rightarrow> real \<Rightarrow> instrument \<Rightarrow> int \<Rightarrow> int list \<Rightarrow> int list
     \<Rightarrow> int list \<Rightarrow> int list \<Rightarrow> reg_trader \<Rightarrow> reg_trader \<times> (py_error + action list)" where
  "on_order_book_update_message_reg polyfit now_bid now_ask instr sequence_number
       ask_prices ask_volumes bid_prices bid_volumes s =
     (case bid_prices of
        [] \<Rightarrow> (s, Inl IndexError)
      | bid0 # _ \<Rightarrow>
          (case ask_prices of
             [] \<Rightarrow> (s, Inl IndexError)
           | ask0 # _ \<Rightarrow>
               if bid0 \<le> 0 \<and> ask0 \<le> 0 then (s, Inr [])
               else
                 let s1 = (if instr = ETF
                           then s\<lparr>etf_prices :=
                                    deque_append AVG_WINDOW_reg (etf_prices s)
                                      ((bid0 + ask0) div 2)\<rparr>
                           else s\<lparr>fut_prices :=
                                    deque_append AVG_WINDOW_reg (fut_prices s)
                                      ((bid0 + ask0) div 2)\<rparr>)
                 in case calculate_hedge_ratio polyfit s1 of
                      None \<Rightarrow> (s1, Inr [])
                    | Some hedge_ratio \<Rightarrow>
                        if instr = FUTURE \<and> length (etf_prices s1) > 0
                           \<and> length (fut_prices s1) > 0
                        then
                          let mid_price = (bid0 + ask0) div 2;
                              spread = spread_series hedge_ratio (etf_prices s1) (fut_prices s1);
                              (new_bid_price, new_ask_price) = quote_prices_reg spread mid_price;
                              (s2, acts) =
                                submit_quotes send_throttled_reg now_bid now_ask
                                  new_bid_price new_ask_price s1
                          in (s2, Inr acts)
                        else (s1, Inr [])))"

section \<open>The trader as a transition system\<close>

text \<open>
  The callbacks the event loop delivers, each with the clock readings the handler takes.
  \<open>CheckHedgeTimer\<close> and \<open>CancelTimer\<close> are the two callbacks scheduled with
  \<^verbatim>\<open>call_later\<close>; the second exists in the volatility variant only. No assumption is made
  on which callbacks arrive, in which order, or with which arguments.
\<close>

datatype event =
    OrderBookUpdate real real instrument int "int list" "int list" "int list" "int list"
  | OrderFilled real int int int
  | OrderStatus int int int int
  | ErrorMessage int
  | HedgeFilled int int int
  | TradeTicks instrument int "int list" "int list" "int list" "int list"
  | CheckHedgeTimer real
  | CancelTimer nat "nat \<Rightarrow> real" int

text \<open>\<^verbatim>\<open>__init__\<close>: the fields, and the first hedge check scheduled after 50 time units.\<close>

definition init_vol :: "vol_trader \<times> action list" where
  "init_vol =
     (\<lparr>order_ids = 1, bids = {}, asks = {}, position = 0, hedge_balance = 0,
       hedge_time = None, bidq = [], askq = [], send_calls = [],
       recent_prices = [], cancel_calls = []\<rparr>,
      [CallLater 50 CheckHedgeCb])"

definition init_reg :: "reg_trader \<times> action list" where
  "init_reg =
     (\<lparr>order_ids = 1, bids = {}, asks = {}, position = 0, hedge_balance = 0,
       hedge_time = None, bidq = [], askq = [], send_calls = [],
       etf_prices = [], fut_prices = []\<rparr>,
      [CallLater 50 CheckHedgeCb])"

fun step_vol ::
  "int \<Rightarrow> int \<Rightarrow> event \<Rightarrow> vol_trader \<Rightarrow> vol_trader \<times> (py_error + action list)" where
  "step_vol minimum_bid maximum_ask (OrderBookUpdate now_bid now_ask instr sq ap av bp bv) s =
     on_order_book_update_message_vol now_bid now_ask instr sq ap av bp bv s"
| "step_vol minimum_bid maximum_ask (OrderFilled now client_order_id price volume) s =
     (on_order_filled_message now client_order_id price volume s, Inr [])"
| "step_vol minimum_bid maximum_ask (OrderStatus client_order_id fill_volume remaining fees) s =
     (on_order_status_message client_order_id fill_volume remaining fees s, Inr [])"
| "step_vol minimum_bid maximum_ask (ErrorMessage client_order_id) s =
     (on_error_message client_order_id s, Inr [])"
| "step_vol minimum_bid maximum_ask (HedgeFilled client_order_id price volume) s = (s, Inr [])"
| "step_vol minimum_bid maximum_ask (TradeTicks instr sq ap av bp bv) s = (s, Inr [])"
| "step_vol minimum_bid maximum_ask (CheckHedgeTimer now) s =
     (case check_hedge minimum_bid maximum_ask now s of (s', acts) \<Rightarrow> (s', Inr acts))"
| "step_vol minimum_bid maximum_ask (CancelTimer depth clock client_order_id) s =
     cancel_order depth clock 0 client_order_id s"

fun step_reg ::
  "(real list \<Rightarrow> real list \<Rightarrow> real) \<Rightarrow> int \<Rightarrow> int \<Rightarrow> event \<Rightarrow> reg_trader
     \<Rightarrow> reg_trader \<times> (py_error + action list)" where
  "step_reg polyfit minimum_bid maximum_ask
       (OrderBookUpdate now_bid now_ask instr sq ap av bp bv) s =
     on_order_book_update_message_reg polyfit now_bid now_ask instr sq ap av bp bv s"
| "step_reg polyfit minimum_bid maximum_ask (OrderFilled now client_order_id price volume) s =
     (on_order_filled_message now client_order_id price volume s, Inr [])"
| "step_reg polyfit minimum_bid maximum_ask
       (OrderStatus client_order_id fill_volume remaining fees) s =
     (on_order_status_message client_order_id fill_volume remaining fees s, Inr [])"
| "step_reg polyfit minimum_bid maximum_ask (ErrorMessage client_order_id) s =
     (on_error_message client_order_id s, Inr [])"
| "step_reg polyfit minimum_bid maximum_ask (HedgeFilled client_order_id price volume) s =
     (s, Inr [])"
| "step_reg polyfit minimum_bid maximum_ask (TradeTicks instr sq ap av bp bv) s = (s, Inr [])"
| "step_reg polyfit minimum_bid maximum_ask (CheckHedgeTimer now) s =
     (case check_hedge minimum_bid maximum_ask now s of (s', acts) \<Rightarrow> (s', Inr acts))"
| "step_reg polyfit minimum_bid maximum_ask (CancelTimer depth clock client_order_id) s =
     (s, Inr [])"

text \<open>The states a trader can be in: the initial one, and the state any callback leaves
  behind, whether it returned or raised.\<close>

inductive reachable_vol :: "int \<Rightarrow> int \<Rightarrow> vol_trader \<Rightarrow> bool"
  for minimum_bid maximum_ask where
    vol_init: "reachable_vol minimum_bid maximum_ask (fst init_vol)"
  | vol_step: "reachable_vol minimum_bid maximum_ask s
       \<Longrightarrow> reachable_vol minimum_bid maximum_ask (fst (step_vol minimum_bid maximum_ask e s))"

inductive reachable_reg ::
  "(real list \<Rightarrow> real list \<Rightarrow> real) \<Rightarrow> int \<Rightarrow> int \<Rightarrow> reg_trader \<Rightarrow> bool"
  for polyfit minimum_bid maximum_ask where
    reg_init: "reachable_reg polyfit minimum_bid maximum_ask (fst init_reg)"
  | reg_step: "reachable_reg polyfit minimum_bid maximum_ask s
       \<Longrightarrow> reachable_reg polyfit minimum_bid maximum_ask
             (fst (step_reg polyfit minimum_bid maximum_ask e s))"

text \<open>Running a list of callbacks from a state.\<close>

fun run_vol :: "int \<Rightarrow> int \<Rightarrow> event list \<Rightarrow> vol_trader \<Rightarrow> vol_trader" where
  "run_vol minimum_bid maximum_ask [] s = s"
| "run_vol minimum_bid maximum_ask (e # es) s =
     run_vol minimum_bid maximum_ask es (fst (step_vol minimum_bid maximum_ask e s))"

fun run_reg ::
  "(real list \<Rightarrow> real list \<Rightarrow> real) \<Rightarrow> int \<Rightarrow> int \<Rightarrow> event list \<Rightarrow> reg_trader \<Rightarrow> reg_trader" where
  "run_reg polyfit minimum_bid maximum_ask [] s = s"
| "run_reg polyfit minimum_bid maximum_ask (e # es) s =
     run_reg polyfit minimum_bid maximum_ask es
       (fst (step_reg polyfit minimum_bid maximum_ask e s))"

subsection \<open>Invariants of the bookkeeping\<close>

text \<open>Every tracked id was drawn from the counter, a queue holds no id twice and only ids of
  its side's set, and the two sets are disjoint.\<close>

definition tracker_inv :: "'a trader_scheme \<Rightarrow> bool" where
  "tracker_inv s \<longleftrightarrow>
     (\<forall>i \<in> bids s \<union> asks s. i < order_ids s)
     \<and> set (bidq s) \<subseteq> bids s \<and> set (askq s) \<subseteq> asks s
     \<and> bids s \<inter> asks s = {}
     \<and> distinct (bidq s) \<and> distinct (askq s)
     \<and> length (bidq s) \<le> 4 \<and> length (askq s) \<le> 4"

text \<open>The timer runs exactly when the imbalance is outside the boundary.\<close>

definition timer_inv :: "'a trader_scheme \<Rightarrow> bool" where
  "timer_inv s \<longleftrightarrow>
     (hedge_time s \<noteq> None) = (hedge_balance s < - 10 \<or> 10 < hedge_balance s)"

text \<open>What a send function may do to the fields of the shared record, its deque apart:
  nothing, or track the id on the side asked for, whose queue had room.\<close>

definition send_effect ::
  "int \<Rightarrow> side \<Rightarrow> 'a trader_scheme \<Rightarrow> 'a trader_scheme \<Rightarrow> bool" where
  "send_effect client_order_id sd s s' \<longleftrightarrow>
     order_ids s' = order_ids s \<and> position s' = position s
     \<and> hedge_balance s' = hedge_balance s \<and> hedge_time s' = hedge_time s
     \<and> (bids s' = bids s \<and> asks s' = asks s \<and> bidq s' = bidq s \<and> askq s' = askq s
        \<or> sd = BUY \<and> length (bidq s) < 4
          \<and> bidq s' = bidq s @ [client_order_id] \<and> bids s' = insert client_order_id (bids s)
          \<and> asks s' = asks s \<and> askq s' = askq s
        \<or> sd = SELL \<and> length (askq s) < 4
          \<and> askq s' = askq s @ [client_order_id] \<and> asks s' = insert client_order_id (asks s)
          \<and> bids s' = bids s \<and> bidq s' = bidq s)"

fun is_cancel :: "action \<Rightarrow> bool" where
  "is_cancel (SendCancelOrder _) = True"
| "is_cancel _ = False"

fun is_insert :: "action \<Rightarrow> bool" where
  "is_insert (SendInsertOrder _ _ _ _ _) = True"
| "is_insert _ = False"

text \<open>The price an action hands to the gateway, if it carries one.\<close>

fun gateway_price :: "action \<Rightarrow> int option" where
  "gateway_price (SendInsertOrder _ _ price _ _) = Some price"
| "gateway_price (SendHedgeOrder _ _ price _) = Some price"
| "gateway_price _ = None"

section \<open>Statements about the handlers\<close>

text \<open>How a fill is attributed: to the bid side, to the ask side, or not at all.\<close>

definition fill_attributed :: "int \<Rightarrow> int \<Rightarrow> 'a trader_scheme \<Rightarrow> 'a trader_scheme \<Rightarrow> bool" where
  "fill_attributed client_order_id volume s s' \<longleftrightarrow>
     (client_order_id \<in> bids s \<union> set (bidq s)
        \<longrightarrow> position s' = position s + volume
          \<and> hedge_balance s' = hedge_balance s - volume)
     \<and> (client_order_id \<in> asks s \<union> set (askq s)
        \<longrightarrow> position s' = position s - volume
          \<and> hedge_balance s' = hedge_balance s + volume)
     \<and> (client_order_id \<notin> bids s \<union> set (bidq s) \<union> asks s \<union> set (askq s)
        \<longrightarrow> position s' = position s \<and> hedge_balance s' = hedge_balance s
          \<and> hedge_time s' = hedge_time s)"

definition imbalance_outside :: "'a trader_scheme \<Rightarrow> bool" where
  "imbalance_outside s \<longleftrightarrow> hedge_balance s < - 10 \<or> 10 < hedge_balance s"

definition sign_flipped :: "int \<Rightarrow> int \<Rightarrow> bool" where
  "sign_flipped pre post \<longleftrightarrow> (pre > 0 \<and> post < 0) \<or> (pre < 0 \<and> post > 0)"

text \<open>What a fill at time \<open>now\<close> does to the timer, \<open>s\<close> before and \<open>s'\<close> after the fill.\<close>

definition fill_timer_rule :: "real \<Rightarrow> 'a trader_scheme \<Rightarrow> 'a trader_scheme \<Rightarrow> bool" where
  "fill_timer_rule now s s' \<longleftrightarrow>
     (\<not> imbalance_outside s' \<longrightarrow> hedge_time s' = None)
     \<and> (imbalance_outside s'
          \<and> (hedge_time s = None \<or> sign_flipped (hedge_balance s) (hedge_balance s'))
        \<longrightarrow> hedge_time s' = Some now)
     \<and> (imbalance_outside s' \<and> hedge_time s \<noteq> None
          \<and> \<not> sign_flipped (hedge_balance s) (hedge_balance s')
        \<longrightarrow> hedge_time s' = hedge_time s)"

text \<open>When the order-book handler reaches its quoting code: in the volatility variant for the
  future with both best prices positive; in the regression variant for the future, unless
  both best prices are non-positive, once both windows hold ten prices after the append.\<close>

definition quoting_cycle_vol :: "instrument \<Rightarrow> int list \<Rightarrow> int list \<Rightarrow> bool" where
  "quoting_cycle_vol instr ask_prices bid_prices \<longleftrightarrow>
     instr = FUTURE \<and> bid_prices \<noteq> [] \<and> ask_prices \<noteq> []
     \<and> hd bid_prices > 0 \<and> hd ask_prices > 0"

definition quoting_cycle_reg :: "instrument \<Rightarrow> int list \<Rightarrow> int list \<Rightarrow> reg_trader \<Rightarrow> bool" where
  "quoting_cycle_reg instr ask_prices bid_prices s \<longleftrightarrow>
     instr = FUTURE \<and> bid_prices \<noteq> [] \<and> ask_prices \<noteq> []
     \<and> \<not> (hd bid_prices \<le> 0 \<and> hd ask_prices \<le> 0)
     \<and> 10 \<le> length (etf_prices s) \<and> 9 \<le> length (fut_prices s)"

text \<open>Eviction comes first: with a full bid queue the cancel of its oldest id is the first
  action and the queue continues with the ids behind it; with a full ask queue the cancel of
  its oldest id is preceded by no insert.\<close>

definition evicts_first ::
  "'a trader_scheme \<Rightarrow> 'a trader_scheme \<Rightarrow> action list \<Rightarrow> bool" where
  "evicts_first s s' acts \<longleftrightarrow>
     (4 \<le> length (bidq s)
        \<longrightarrow> (\<exists>rest. acts = SendCancelOrder (hd (bidq s)) # rest)
          \<and> (\<exists>new. bidq s' = tl (bidq s) @ new))
     \<and> (4 \<le> length (askq s)
        \<longrightarrow> (\<exists>pre rest. acts = pre @ SendCancelOrder (hd (askq s)) # rest
                \<and> (\<forall>a \<in> set pre. \<not> is_insert a))
          \<and> (\<exists>new. askq s' = tl (askq s) @ new))"

text \<open>During a step the ids in the queues and sets change as follows.\<close>

definition queue_grows :: "'a trader_scheme \<Rightarrow> 'a trader_scheme \<Rightarrow> bool" where
  "queue_grows s s' \<longleftrightarrow>
     order_ids s \<le> order_ids s' \<and> bids s \<subseteq> bids s' \<and> asks s \<subseteq> asks s'
     \<and> (\<exists>nb. bidq s' = bidq s @ nb \<and> (\<forall>i \<in> set nb. order_ids s \<le> i))
     \<and> (\<exists>na. askq s' = askq s @ na \<and> (\<forall>i \<in> set na. order_ids s \<le> i))"

text \<open>An evicted id is gone from its queue and still in its side's set, so that a fill
  for it is still booked on that side.\<close>

definition evicted_stays :: "'a trader_scheme \<Rightarrow> 'a trader_scheme \<Rightarrow> bool" where
  "evicted_stays s s' \<longleftrightarrow>
     (4 \<le> length (bidq s)
        \<longrightarrow> hd (bidq s) \<notin> set (bidq s') \<and> hd (bidq s) \<in> bids s'
          \<and> (\<forall>now price volume.
                position (on_order_filled_message now (hd (bidq s)) price volume s')
                  = position s' + volume))
     \<and> (4 \<le> length (askq s)
        \<longrightarrow> hd (askq s) \<notin> set (askq s') \<and> hd (askq s) \<in> asks s'
          \<and> (\<forall>now price volume.
                position (on_order_filled_message now (hd (askq s)) price volume s')
                  = position s' - volume))"

text \<open>The callbacks that complete an order: a status with remaining volume 0, or an error.\<close>

definition completes :: "event \<Rightarrow> int \<Rightarrow> bool" where
  "completes e client_order_id \<longleftrightarrow>
     (\<exists>fill_volume fees. e = OrderStatus client_order_id fill_volume 0 fees)
     \<or> e = ErrorMessage client_order_id"

text \<open>Traces used to exercise the handlers: quoting cycles of the volatility variant at a
  steady mid price of 10000, and two fills of asks.\<close>

definition book_update :: event where
  "book_update = OrderBookUpdate 0 0 FUTURE 1 [10100] [5] [9900] [5]"

definition fill_trace :: "event list" where
  "fill_trace =
     [book_update, OrderFilled 5 2 10000 10, book_update, OrderFilled 7 4 10000 10]"

definition eviction_trace :: "event list" where
  "eviction_trace = [book_update, book_update, book_update, book_update, book_update]"

text \<open>The states these traces lead to.\<close>

definition quoted_once :: vol_trader where
  "quoted_once =
     \<lparr>order_ids = 3, bids = {1}, asks = {2}, position = 0, hedge_balance = 0,
       hedge_time = None, bidq = [1], askq = [2], send_calls = [0, 0],
       recent_prices = [10000], cancel_calls = []\<rparr>"

definition quoted_twice :: vol_trader where
  "quoted_twice =
     \<lparr>order_ids = 5, bids = {1, 3}, asks = {2, 4}, position = - 10, hedge_balance = 10,
       hedge_time = None, bidq = [1, 3], askq = [2, 4], send_calls = [0, 0, 0, 0],
       recent_prices = [10000, 10000], cancel_calls = []\<rparr>"

definition armed_after_fills :: vol_trader where
  "armed_after_fills = quoted_twice\<lparr>position := - 20, hedge_balance := 20, hedge_time := Some 7\<rparr>"

definition full_queues :: vol_trader where
  "full_queues =
     \<lparr>order_ids = 9, bids = {1, 3, 5, 7}, asks = {2, 4, 6, 8}, position = 0,
       hedge_balance = 0, hedge_time = None, bidq = [1, 3, 5, 7], askq = [2, 4, 6, 8],
       send_calls = [0, 0, 0, 0, 0, 0, 0, 0],
       recent_prices = [10000, 10000, 10000, 10000], cancel_calls = []\<rparr>"

definition after_eviction :: vol_trader where
  "after_eviction =
     \<lparr>order_ids = 11, bids = {1, 3, 5, 7, 9}, asks = {2, 4, 6, 8, 10}, position = 0,
       hedge_balance = 0, hedge_time = None, bidq = [3, 5, 7, 9], askq = [4, 6, 8, 10],
       send_calls = [0, 0, 0, 0, 0, 0, 0, 0, 0, 0],
       recent_prices = [10000, 10000, 10000, 10000, 10000], cancel_calls = []\<rparr>"

text \<open>The windows of the regression scenario: ETF prices 100 to 109, future prices twice
  those.\<close>

definition etf_window :: "int list" where
  "etf_window = [100, 101, 102, 103, 104, 105, 106, 107, 108, 109]"

definition fut_window :: "int list" where
  "fut_window = [200, 202, 204, 206, 208, 210, 212, 214, 216, 218]"



text \<open>A collapse of the future's price in the volatility variant: one quoting cycle at a mid
  price of 100000, then an update with best bid 100 and best ask 300.\<close>

definition high_update :: event where
  "high_update = OrderBookUpdate 0 0 FUTURE 1 [100100] [5] [99900] [5]"

definition collapse_update :: event where
  "collapse_update = OrderBookUpdate 1 1 FUTURE 2 [300] [5] [100] [5]"

definition quoted_high :: vol_trader where
  "quoted_high =
     \<lparr>order_ids = 3, bids = {1}, asks = {2}, position = 0, hedge_balance = 0,
       hedge_time = None, bidq = [1], askq = [2], send_calls = [0, 0],
       recent_prices = [100000], cancel_calls = []\<rparr>"

definition collapse_actions :: "action list" where
  "collapse_actions =
     [SendInsertOrder 3 BUY (- 24800) 10 GOOD_FOR_DAY, CallLater 10 (CancelOrderCb 3),
      SendInsertOrder 4 SELL 25100 10 GOOD_FOR_DAY, CallLater 10 (CancelOrderCb 4)]"

text \<open>The regression scenario as a run of the handler: the ETF window is full, the future's
  window lacks the last price, and an update for the future with best bid 217 and best ask
  219, hence mid price 218, completes it.\<close>

definition regression_before :: reg_trader where
  "regression_before =
     (fst init_reg)\<lparr>etf_prices := etf_window,
                    fut_prices := [198, 200, 202, 204, 206, 208, 210, 212, 214, 216]\<rparr>"

definition regression_after :: reg_trader where
  "regression_after =
     \<lparr>order_ids = 3, bids = {1}, asks = {2}, position = 0, hedge_balance = 0,
       hedge_time = None, bidq = [1], askq = [2], send_calls = [0, 0],
       etf_prices = etf_window, fut_prices = fut_window\<rparr>"

section \<open>Rounding to the nearest double\<close>

lemma round_half_even_bounds:
  "real_of_int (round_half_even x) \<le> x + 1 / 2" "x - 1 / 2 \<le> real_of_int (round_half_even x)"
  unfolding round_half_even_def Let_def by (auto; linarith)+

lemma round_half_even_le:
  assumes "x \<le> real_of_int m + 1 / 2" and "x < real_of_int m + 1 / 2 \<or> even m"
  shows "round_half_even x \<le> m"
proof -
  have f: "\<lfloor>x\<rfloor> \<le> m" using assms(1) by linarith
  show ?thesis
  proof (cases "\<lfloor>x\<rfloor> = m")
    case True
    then have "x - real_of_int \<lfloor>x\<rfloor> \<le> 1 / 2" using assms(1) by simp
    then show ?thesis using True assms(2) unfolding round_half_even_def Let_def by auto
  next
    case False
    then have "\<lfloor>x\<rfloor> + 1 \<le> m" using f by simp
    then show ?thesis unfolding round_half_even_def Let_def by auto
  qed
qed

lemma round_half_even_ge:
  assumes "real_of_int m - 1 / 2 \<le> x" and "real_of_int m - 1 / 2 < x \<or> even m"
  shows "m \<le> round_half_even x"
proof -
  have f: "m - 1 \<le> \<lfloor>x\<rfloor>" using assms(1) by linarith
  show ?thesis
  proof (cases "\<lfloor>x\<rfloor> = m - 1")
    case True
    then have r: "1 / 2 \<le> x - real_of_int \<lfloor>x\<rfloor>" using assms(1) by simp
    have "odd m \<Longrightarrow> x - real_of_int \<lfloor>x\<rfloor> > 1 / 2" using assms(2) True by auto
    moreover have "even m \<Longrightarrow> odd \<lfloor>x\<rfloor>" using True by simp
    ultimately show ?thesis using True r unfolding round_half_even_def Let_def
      by (cases "even m") auto
  next
    case False
    then have "m \<le> \<lfloor>x\<rfloor>" using f by simp
    then show ?thesis unfolding round_half_even_def Let_def by auto
  qed
qed

lemma float_exponent_eq:
  assumes "0 < x" "2 powr real_of_int k \<le> x" "x < 2 powr real_of_int (k + 1)" "- 1022 \<le> k"
  shows "float_exponent x = k"
proof -
  have "\<lfloor>log 2 x\<rfloor> = k"
    using assms by (subst floor_log_eq_powr_iff) auto
  then show ?thesis using assms by (simp add: float_exponent_def)
qed


lemma float_round_nonpos:
  assumes "x \<le> 0"
  shows "float_round x \<le> 0"
proof (cases "x = 0")
  case True
  then show ?thesis by (simp add: float_round_def)
next
  case False
  define u where "u = 2 powr real_of_int (float_exponent x - 52)"
  define y where "y = x / u"
  have u: "0 < u" by (simp add: u_def)
  have "y < 0" using assms False u by (simp add: y_def divide_neg_pos)
  then have "y \<le> real_of_int 0 + 1 / 2" "y < real_of_int 0 + 1 / 2 \<or> even (0::int)"
    by simp_all
  then have "round_half_even y \<le> 0"
    by (rule round_half_even_le)
  then have "real_of_int (round_half_even y) * u \<le> 0"
    using u by (simp add: mult_le_0_iff)
  then show ?thesis using False by (simp add: float_round_def y_def u_def)
qed

lemma float_exponent_pos:
  "0 < x \<Longrightarrow> float_exponent x = max \<lfloor>log 2 x\<rfloor> (- 1022)"
  by (simp add: float_exponent_def)

lemma float_round_binade:
  assumes "0 < x" "2 powr real_of_int k \<le> x" "x < 2 powr real_of_int (k + 1)" "- 1022 \<le> k"
  shows "float_round x =
           real_of_int (round_half_even (x / 2 powr real_of_int (k - 52)))
           * 2 powr real_of_int (k - 52)"
  using assms float_exponent_eq [OF assms] by (simp add: float_round_def)

lemma powr_split:
  "2 powr real_of_int e = 2 powr 52 * 2 powr real_of_int (e - 52)"
  "2 powr real_of_int (e + 1) = 2 powr 53 * 2 powr real_of_int (e - 52)"
proof -
  have "2 powr (52::real) * 2 powr real_of_int (e - 52) = 2 powr (52 + real_of_int (e - 52))"
    by (simp only: powr_add)
  then show "2 powr real_of_int e = 2 powr 52 * 2 powr real_of_int (e - 52)"
    by (simp only: of_int_diff of_int_numeral add_diff_eq add_diff_cancel_left')
  have "2 powr (53::real) * 2 powr real_of_int (e - 52) = 2 powr (53 + real_of_int (e - 52))"
    by (simp only: powr_add)
  moreover have "53 + real_of_int (e - 52) = real_of_int (e + 1)" by simp
  ultimately show "2 powr real_of_int (e + 1) = 2 powr 53 * 2 powr real_of_int (e - 52)"
    by (simp only:)
qed

lemma float_round_upper:
  assumes "0 < x" "x < 2 powr real_of_int k" "- 1021 \<le> k"
  shows "float_round x \<le> 2 powr real_of_int k"
proof -
  define e where "e = float_exponent x"
  define u where "u = 2 powr real_of_int (e - 52)"
  define y where "y = x / u"
  have u: "0 < u" by (simp add: u_def)
  have "log 2 x < real_of_int k"
    using assms(1,2) by (simp add: log_less_iff)
  then have fl: "\<lfloor>log 2 x\<rfloor> + 1 \<le> k" by linarith
  then have ek: "e + 1 \<le> k"
    using assms(3) by (simp add: e_def float_exponent_pos [OF assms(1)])
  have "log 2 x < real_of_int (\<lfloor>log 2 x\<rfloor> + 1)" by linarith
  then have "x < 2 powr real_of_int (\<lfloor>log 2 x\<rfloor> + 1)"
    using assms(1) by (simp only: log_less_iff [symmetric])
  also have "\<dots> \<le> 2 powr real_of_int (e + 1)"
    by (simp add: e_def float_exponent_pos [OF assms(1)])
  finally have xe: "x < 2 powr real_of_int (e + 1)" .
  have "2 powr real_of_int (e + 1) = 2 powr 53 * u"
    unfolding u_def by (rule powr_split)
  then have "x < 2 powr 53 * u" using xe by simp
  then have "y < 2 powr 53" using u by (simp add: y_def pos_divide_less_eq)
  then have y53: "y < real_of_int (2 ^ 53)" by (simp add: powr_numeral)
  then have "y \<le> real_of_int (2 ^ 53) + 1 / 2"
    "y < real_of_int (2 ^ 53) + 1 / 2 \<or> even (2 ^ 53 :: int)"
    by linarith+
  then have "round_half_even y \<le> 2 ^ 53"
    by (rule round_half_even_le)
  then have "real_of_int (round_half_even y) \<le> real_of_int (2 ^ 53)"
    by (rule iffD2 [OF of_int_le_iff])
  then have "real_of_int (round_half_even y) \<le> 2 powr 53"
    by (simp add: powr_numeral)
  then have "real_of_int (round_half_even y) * u \<le> 2 powr 53 * u"
    using u by (intro mult_right_mono) auto
  also have "\<dots> = 2 powr real_of_int (e + 1)"
    unfolding u_def by (rule powr_split [symmetric])
  also have "\<dots> \<le> 2 powr real_of_int k" using ek by simp
  finally have "real_of_int (round_half_even y) * u \<le> 2 powr real_of_int k" .
  moreover have "float_round x = real_of_int (round_half_even y) * u"
    using assms(1) by (simp add: float_round_def y_def u_def e_def)
  ultimately show ?thesis by (simp only:)
qed

lemma float_round_lower:
  assumes "0 < x" "2 powr real_of_int k \<le> x" "- 1022 \<le> k"
  shows "2 powr real_of_int k \<le> float_round x"
proof -
  define e where "e = float_exponent x"
  define u where "u = 2 powr real_of_int (e - 52)"
  define y where "y = x / u"
  have u: "0 < u" by (simp add: u_def)
  have "real_of_int k \<le> log 2 x"
    using assms(1,2) by (simp add: le_log_iff)
  then have kf: "k \<le> \<lfloor>log 2 x\<rfloor>" by linarith
  then have e: "e = \<lfloor>log 2 x\<rfloor>"
    using assms(3) by (simp add: e_def float_exponent_pos [OF assms(1)])
  have ke: "k \<le> e" using kf e by simp
  have "real_of_int e \<le> log 2 x" unfolding e by simp
  then have "2 powr real_of_int e \<le> x"
    using assms(1) by (simp only: le_log_iff [symmetric]) 
  moreover have "2 powr real_of_int e = 2 powr 52 * u"
    unfolding u_def by (rule powr_split)
  ultimately have "2 powr 52 * u \<le> x" by simp
  then have "2 powr 52 \<le> y" using u by (simp add: y_def pos_le_divide_eq)
  then have "real_of_int (2 ^ 52) \<le> y" by (simp add: powr_numeral)
  then have "real_of_int (2 ^ 52) - 1 / 2 \<le> y"
    "real_of_int (2 ^ 52) - 1 / 2 < y \<or> even (2 ^ 52 :: int)"
    by linarith+
  then have "2 ^ 52 \<le> round_half_even y"
    by (rule round_half_even_ge)
  then have "real_of_int (2 ^ 52) \<le> real_of_int (round_half_even y)"
    by (rule iffD2 [OF of_int_le_iff])
  then have "2 powr 52 \<le> real_of_int (round_half_even y)"
    by (simp add: powr_numeral)
  then have "2 powr 52 * u \<le> real_of_int (round_half_even y) * u"
    using u by (intro mult_right_mono) auto
  moreover have "2 powr 52 * u = 2 powr real_of_int e"
    unfolding u_def by (rule powr_split [symmetric])
  moreover have "2 powr real_of_int k \<le> 2 powr real_of_int e" using ke by simp
  ultimately have "2 powr real_of_int k \<le> real_of_int (round_half_even y) * u" by linarith
  moreover have "float_round x = real_of_int (round_half_even y) * u"
    using assms(1) by (simp add: float_round_def y_def u_def e_def)
  ultimately show ?thesis by (simp only:)
qed


text \<open>The two comparisons the programs make on a rounded difference.\<close>

lemma float_round_less_one: "float_round z < 1 \<longleftrightarrow> z < 1 - 1 / 2 ^ 54"
proof
  assume r: "float_round z < 1"
  show "z < 1 - 1 / 2 ^ 54"
  proof (rule ccontr)
    assume "\<not> z < 1 - 1 / 2 ^ 54"
    then have z: "1 - 1 / 2 ^ 54 \<le> z" by simp
    then have pos: "0 < z" by simp
    show False
    proof (cases "1 \<le> z")
      case True
      have "2 powr real_of_int 0 \<le> float_round z"
        by (rule float_round_lower) (use pos True in simp_all)
      then show False using r by simp
    next
      case False
      have b: "2 powr real_of_int (- 1) \<le> z" "z < 2 powr real_of_int (- 1 + 1)"
        using z False by (simp_all add: powr_minus)
      have fr: "float_round z = real_of_int (round_half_even (z / 2 powr real_of_int (- 1 - 52)))
           * 2 powr real_of_int (- 1 - 52)"
        by (rule float_round_binade [OF pos b]) simp
      have u: "2 powr real_of_int (- 1 - 52) = 1 / 2 ^ 53"
        by (simp add: powr_minus powr_numeral divide_simps)
      define y where "y = z / (1 / 2 ^ 53)"
      have "real_of_int (2 ^ 53) - 1 / 2 \<le> y"
        using z by (simp add: y_def field_simps)
      moreover have "real_of_int (2 ^ 53) - 1 / 2 < y \<or> even (2 ^ 53 :: int)" by simp
      ultimately have "2 ^ 53 \<le> round_half_even y" by (rule round_half_even_ge)
      then have "real_of_int (2 ^ 53) \<le> real_of_int (round_half_even y)"
        by (rule iffD2 [OF of_int_le_iff])
      then have "1 \<le> real_of_int (round_half_even y) * (1 / 2 ^ 53)" by simp
      then show False using r unfolding fr u y_def by simp
    qed
  qed
next
  assume z: "z < 1 - 1 / 2 ^ 54"
  show "float_round z < 1"
  proof (cases "z \<le> 0")
    case True
    then show ?thesis using float_round_nonpos [of z] by simp
  next
    case False
    then have pos: "0 < z" by simp
    show ?thesis
    proof (cases "z < 1 / 2")
      case True
      have "float_round z \<le> 2 powr real_of_int (- 1)"
        by (rule float_round_upper) (use pos True in \<open>simp_all add: powr_minus\<close>)
      then show ?thesis by (simp add: powr_minus)
    next
      case False
      have b: "2 powr real_of_int (- 1) \<le> z" "z < 2 powr real_of_int (- 1 + 1)"
        using z False by (simp_all add: powr_minus)
      have fr: "float_round z = real_of_int (round_half_even (z / 2 powr real_of_int (- 1 - 52)))
           * 2 powr real_of_int (- 1 - 52)"
        by (rule float_round_binade [OF pos b]) simp
      have u: "2 powr real_of_int (- 1 - 52) = 1 / 2 ^ 53"
        by (simp add: powr_minus powr_numeral divide_simps)
      define y where "y = z / (1 / 2 ^ 53)"
      have "y < real_of_int (2 ^ 53 - 1) + 1 / 2"
        using z by (simp add: y_def field_simps)
      then have "y \<le> real_of_int (2 ^ 53 - 1) + 1 / 2"
        "y < real_of_int (2 ^ 53 - 1) + 1 / 2 \<or> even (2 ^ 53 - 1 :: int)" by simp_all
      then have "round_half_even y \<le> 2 ^ 53 - 1" by (rule round_half_even_le)
      then have "real_of_int (round_half_even y) \<le> real_of_int (2 ^ 53 - 1)"
        by (rule iffD2 [OF of_int_le_iff])
      then have "real_of_int (round_half_even y) * (1 / 2 ^ 53) < 1" by simp
      then show ?thesis unfolding fr u y_def by simp
    qed
  qed
qed


lemma float_round_greater_58: "58 < float_round z \<longleftrightarrow> 58 + 1 / 2 ^ 48 < z"
proof
  assume z: "58 + 1 / 2 ^ 48 < z"
  then have pos: "0 < z" by (smt (verit) divide_nonneg_nonneg zero_le_power)
  show "58 < float_round z"
  proof (cases "64 \<le> z")
    case True
    have "2 powr real_of_int 6 \<le> float_round z"
      by (rule float_round_lower) (use pos True in \<open>simp_all add: powr_numeral\<close>)
    then show ?thesis by (simp add: powr_numeral)
  next
    case False
    have "(32::real) \<le> 58 + 1 / 2 ^ 48" by simp
    then have b: "2 powr real_of_int 5 \<le> z" "z < 2 powr real_of_int (5 + 1)"
      using z False by (simp_all add: powr_numeral)
    have fr: "float_round z = real_of_int (round_half_even (z / 2 powr real_of_int (5 - 52)))
         * 2 powr real_of_int (5 - 52)"
      by (rule float_round_binade [OF pos b]) simp
    have u: "2 powr real_of_int (5 - 52) = 1 / 2 ^ 47"
      by (simp add: powr_minus powr_numeral divide_simps)
    define y where "y = z / (1 / 2 ^ 47)"
    have "real_of_int (58 * 2 ^ 47 + 1) - 1 / 2 < y"
      using z by (simp add: y_def field_simps)
    then have "real_of_int (58 * 2 ^ 47 + 1) - 1 / 2 \<le> y"
      "real_of_int (58 * 2 ^ 47 + 1) - 1 / 2 < y \<or> even (58 * 2 ^ 47 + 1 :: int)" by simp_all
    then have "58 * 2 ^ 47 + 1 \<le> round_half_even y" by (rule round_half_even_ge)
    then have "real_of_int (58 * 2 ^ 47 + 1) \<le> real_of_int (round_half_even y)"
      by (rule iffD2 [OF of_int_le_iff])
    then have "58 < real_of_int (round_half_even y) * (1 / 2 ^ 47)" by simp
    then show ?thesis unfolding fr u y_def by simp
  qed
next
  assume r: "58 < float_round z"
  show "58 + 1 / 2 ^ 48 < z"
  proof (rule ccontr)
    assume "\<not> 58 + 1 / 2 ^ 48 < z"
    then have z: "z \<le> 58 + 1 / 2 ^ 48" by simp
    show False
    proof (cases "z \<le> 0")
      case True
      then show False using float_round_nonpos [of z] r by simp
    next
      case False
      then have pos: "0 < z" by simp
      show False
      proof (cases "z < 32")
        case True
        have "float_round z \<le> 2 powr real_of_int 5"
          by (rule float_round_upper) (use pos True in \<open>simp_all add: powr_numeral\<close>)
        then show False using r by (simp add: powr_numeral)
      next
        case False
        have "58 + 1 / 2 ^ 48 < (64::real)" by simp
        then have b: "2 powr real_of_int 5 \<le> z" "z < 2 powr real_of_int (5 + 1)"
          using z False by (simp_all add: powr_numeral)
        have fr: "float_round z = real_of_int (round_half_even (z / 2 powr real_of_int (5 - 52)))
             * 2 powr real_of_int (5 - 52)"
          by (rule float_round_binade [OF pos b]) simp
        have u: "2 powr real_of_int (5 - 52) = 1 / 2 ^ 47"
          by (simp add: powr_minus powr_numeral divide_simps)
        define y where "y = z / (1 / 2 ^ 47)"
        have "y \<le> real_of_int (58 * 2 ^ 47) + 1 / 2"
          using z by (simp add: y_def field_simps)
        moreover have "y < real_of_int (58 * 2 ^ 47) + 1 / 2 \<or> even (58 * 2 ^ 47 :: int)"
          by simp
        ultimately have "round_half_even y \<le> 58 * 2 ^ 47" by (rule round_half_even_le)
        then have "real_of_int (round_half_even y) \<le> real_of_int (58 * 2 ^ 47)"
          by (rule iffD2 [OF of_int_le_iff])
        then have "real_of_int (round_half_even y) * (1 / 2 ^ 47) \<le> 58" by simp
        then show False using r unfolding fr u y_def by simp
      qed
    qed
  qed
qed

section \<open>Properties of the hedge check\<close>

lemma hedge_limit_exceeded: "HEDGE_TIME_LIMIT < float_sub now t \<longleftrightarrow> 58 + 1 / 2 ^ 48 < now - t"
  unfolding HEDGE_TIME_LIMIT_def float_sub_def by (rule float_round_greater_58)






section \<open>Properties of the rate limiter\<close>

lemma spaced_butlast: "spaced gap (B @ [t]) \<Longrightarrow> spaced gap B"
  by (auto simp: spaced_def sorted_append nth_append split: if_splits)

lemma spaced_window:
  "spaced gap A \<Longrightarrow> length (filter (\<lambda>t. T - gap < t \<and> t \<le> T) A) \<le> max_calls"
proof (induction A rule: rev_induct)
  case Nil
  then show ?case by simp
next
  case (snoc t B)
  let ?P = "\<lambda>t. T - gap < t \<and> t \<le> T"
  have B: "spaced gap B" using snoc.prems by (rule spaced_butlast)
  have IH: "length (filter ?P B) \<le> max_calls" using snoc.IH B by simp
  show ?case
  proof (cases "?P t")
    case False
    then show ?thesis using IH by auto
  next
    case True
    show ?thesis
    proof (cases "length B < max_calls")
      case True
      have "length (filter ?P (B @ [t])) \<le> length (B @ [t])" by (rule length_filter_le)
      also have "\<dots> \<le> max_calls" using True by simp
      finally show ?thesis .
    next
      case False
      define j where "j = length B - max_calls"
      have j: "j + max_calls = length B" using False by (simp add: j_def)
      have srt: "sorted (B @ [t])" using snoc.prems by (simp add: spaced_def)
      have jl: "j < length B" using j by (simp add: max_calls_def)
      have "\<forall>i. i + max_calls < length (B @ [t])
               \<longrightarrow> (B @ [t]) ! i + gap \<le> (B @ [t]) ! (i + max_calls)"
        using snoc.prems unfolding spaced_def by blast
      moreover have "j + max_calls < length (B @ [t])" using j by simp
      ultimately have "(B @ [t]) ! j + gap \<le> (B @ [t]) ! (j + max_calls)" by blast
      then have Bj: "B ! j + gap \<le> t" using j jl by (simp add: nth_append)
      have old: "\<forall>x \<in> set (take (Suc j) B). \<not> ?P x"
      proof
        fix x assume "x \<in> set (take (Suc j) B)"
        then obtain i where i: "i < Suc j" "i < length B" "x = B ! i"
          by (auto simp: in_set_conv_nth)
        have "sorted B" using srt by (simp add: sorted_append)
        then have "B ! i \<le> B ! j" using i jl by (intro sorted_nth_mono) auto
        then show "\<not> ?P x" using Bj True i by simp
      qed
      have "filter ?P B = filter ?P (take (Suc j) B) @ filter ?P (drop (Suc j) B)"
        by (metis append_take_drop_id filter_append)
      also have "filter ?P (take (Suc j) B) = []" using old by (simp add: filter_empty_conv)
      finally have "filter ?P B = filter ?P (drop (Suc j) B)" by simp
      then have "length (filter ?P B) = length (filter ?P (drop (Suc j) B))" by simp
      also have "\<dots> \<le> length (drop (Suc j) B)" by (rule length_filter_le)
      also have "\<dots> = max_calls - 1" using j by simp
      finally show ?thesis using \<open>?P t\<close> by (simp add: max_calls_def)
    qed
  qed
qed

lemma throttled_iff:
  "throttled now call_times \<longleftrightarrow>
     length call_times = max_calls \<and> now - hd call_times < 1 - 1 / 2 ^ 54"
  by (simp add: throttled_def interval_def float_sub_def float_round_less_one)

lemma accepted_spaced:
  "spaced (1 - 1 / 2 ^ 54) A \<Longrightarrow> call_times = drop (length A - max_calls) A
   \<Longrightarrow> sorted (A @ nows)
   \<Longrightarrow> spaced (1 - 1 / 2 ^ 54) (A @ accepted_calls call_times nows)"
proof (induction nows arbitrary: A call_times)
  case Nil
  then show ?case by simp
next
  case (Cons now rest)
  have srtA: "sorted (A @ rest)" using Cons.prems(3) by (auto simp: sorted_append)
  show ?case
  proof (cases "throttled now call_times")
    case True
    then have "accepted_calls call_times (now # rest) = accepted_calls call_times rest"
      by (simp add: throttler_def)
    then show ?thesis using Cons.IH [OF Cons.prems(1) Cons.prems(2) srtA] by simp
  next
    case False
    let ?A = "A @ [now]"
    let ?c = "deque_append max_calls call_times now"
    have acc: "accepted_calls call_times (now # rest) = now # accepted_calls ?c rest"
      using False by (simp add: throttler_def)
    have c: "?c = drop (length ?A - max_calls) ?A"
    proof (cases "length A < max_calls")
      case True
      then show ?thesis using Cons.prems(2) by (simp add: deque_append_def Let_def)
    next
      case False
      then have "length A - max_calls + max_calls = length A" by simp
      then show ?thesis using Cons.prems(2) False
        by (simp add: deque_append_def Let_def Suc_diff_le)
    qed
    have srt: "sorted ?A" using Cons.prems(3) by (auto simp: sorted_append)
    have sp: "spaced (1 - 1 / 2 ^ 54) ?A"
      unfolding spaced_def
    proof (intro conjI allI impI)
      show "sorted ?A" by (rule srt)
    next
      fix i assume i: "i + max_calls < length ?A"
      show "?A ! i + (1 - 1 / 2 ^ 54) \<le> ?A ! (i + max_calls)"
      proof (cases "i + max_calls < length A")
        case True
        then show ?thesis using Cons.prems(1) by (simp add: spaced_def nth_append)
      next
        case False
        then have eq: "i + max_calls = length A" using i by simp
        then have len: "length call_times = max_calls"
          using Cons.prems(2) by simp
        have "length A - max_calls = i" using eq by simp
        then have "hd call_times = A ! i"
          using Cons.prems(2) eq by (simp add: hd_drop_conv_nth max_calls_def)
        moreover have "\<not> now - hd call_times < 1 - 1 / 2 ^ 54"
          using \<open>\<not> throttled now call_times\<close> len by (simp add: throttled_iff)
        ultimately show ?thesis using eq by (simp add: nth_append max_calls_def)
      qed
    qed
    have "spaced (1 - 1 / 2 ^ 54) (?A @ accepted_calls ?c rest)"
      using Cons.IH [OF sp c] Cons.prems(3) by simp
    then show ?thesis using acc by simp
  qed
qed

lemma accepted_burst:
  "length call_times + n \<le> max_calls \<Longrightarrow>
     accepted_calls call_times (replicate n t @ rest)
       = replicate n t @ accepted_calls (call_times @ replicate n t) rest"
proof (induction n arbitrary: call_times)
  case 0
  then show ?case by simp
next
  case (Suc n)
  have room: "length call_times < max_calls" using Suc.prems by simp
  then have "\<not> throttled t call_times" by (simp add: throttled_def)
  moreover have "deque_append max_calls call_times t = call_times @ [t]"
    using room by (simp add: deque_append_def Let_def)
  ultimately have "accepted_calls call_times (replicate (Suc n) t @ rest)
      = t # accepted_calls (call_times @ [t]) (replicate n t @ rest)"
    by (simp add: throttler_def)
  also have "accepted_calls (call_times @ [t]) (replicate n t @ rest)
      = replicate n t @ accepted_calls ((call_times @ [t]) @ replicate n t) rest"
    by (rule Suc.IH) (use Suc.prems in simp)
  finally show ?case by (simp add: replicate_app_Cons_same)
qed

lemma count_in_window_replicate:
  "count_in_window len T (replicate n t @ ts)
     = (if in_window len T t then n else 0) + count_in_window len T ts"
  by (simp add: count_in_window_def filter_replicate)

text \<open>
  C2, as stated, fails by the rounding of the difference of two clock readings. After 47
  calls at the double nearest to 0.2, a call at the double nearest to 1.2 is less than one
  second later, yet the difference the limiter computes is rounded to 1.0 and the call is
  let through: 48 calls are accepted in the trailing window of one second that ends with it.
\<close>

theorem throttler_burst_counterexample:
  "sorted burst_readings
   \<and> double_12 - double_02 < 1
   \<and> accepted_calls [] burst_readings = burst_readings
   \<and> count_in_window 1 double_12 (accepted_calls [] burst_readings) = 48"
proof -
  have srt: "sorted burst_readings"
    by (simp add: burst_readings_def sorted_append double_02_def double_12_def)
  have lt: "double_12 - double_02 < 1"
    by (simp add: double_02_def double_12_def)
  have last: "\<not> throttled double_12 (replicate 47 double_02)"
    by (simp add: throttled_iff double_02_def double_12_def)
  have "accepted_calls [] (replicate 47 double_02 @ [double_12])
      = replicate 47 double_02 @ accepted_calls ([] @ replicate 47 double_02) [double_12]"
    by (rule accepted_burst) (simp add: max_calls_def)
  also have "accepted_calls ([] @ replicate 47 double_02) [double_12] = [double_12]"
    using last by (simp add: throttler_def)
  finally have acc: "accepted_calls [] burst_readings = burst_readings"
    by (simp add: burst_readings_def)
  have "count_in_window 1 double_12 burst_readings = 48"
    unfolding burst_readings_def count_in_window_replicate
    by (simp add: count_in_window_def in_window_def double_02_def double_12_def)
  then show ?thesis using srt lt acc by simp
qed

text \<open>
  C2, amended. \<^verbatim>\<open>time.monotonic()\<close> never goes backwards, so the readings of successive calls
  are sorted. For every such sequence of calls of a decorated function, starting with the
  empty deque, at most 47 of the calls let through have readings in a trailing window of
  length \<open>1 - 1 / 2 ^ 54\<close>, its start excluded. A call is rejected exactly when the deque
  holds 47 readings and the oldest is less than \<open>1 - 1 / 2 ^ 54\<close> before the call's. A rejected
  call returns at once: the state, with the recorded readings, is the one before the call
  and the result does not depend on the wrapped function; a rejected send tracks no id and
  emits nothing, and a rejected cancel likewise. A call that is let through records its
  reading, in the send path and in the cancel path, where the body then makes the next call.
\<close>

theorem throttler_rate_limit:
  fixes s :: "'a trader_scheme" and v :: vol_trader
  assumes "sorted nows"
  shows "count_in_window (1 - 1 / 2 ^ 54) T (accepted_calls [] nows) \<le> 47
    \<and> (throttled now (call_times st)
         \<longleftrightarrow> length (call_times st) = 47 \<and> now - hd (call_times st) < 1 - 1 / 2 ^ 54)
    \<and> (throttled now (call_times st)
         \<longrightarrow> throttler call_times set_call_times func none now st = (st, none))
    \<and> (throttled now (send_calls s)
         \<longrightarrow> send_throttled_vol now client_order_id sd price volume s = (s, [])
           \<and> send_throttled_reg now client_order_id sd price volume s = (s, []))
    \<and> (throttled (clock k) (cancel_calls v)
         \<longrightarrow> cancel_order (Suc depth) clock k client_order_id v = (v, Inr []))
    \<and> (\<not> throttled now (send_calls s)
         \<longrightarrow> send_calls (fst (send_throttled_vol now client_order_id sd price volume s))
               = deque_append max_calls (send_calls s) now
           \<and> send_calls (fst (send_throttled_reg now client_order_id sd price volume s))
               = deque_append max_calls (send_calls s) now)
    \<and> (\<not> throttled (clock k) (cancel_calls v)
         \<longrightarrow> cancel_order (Suc depth) clock k client_order_id v
               = cancel_order depth clock (Suc k) client_order_id
                   (v\<lparr>cancel_calls := deque_append max_calls (cancel_calls v) (clock k)\<rparr>))"
proof -
  have "spaced (1 - 1 / 2 ^ 54) ([] @ accepted_calls [] nows)"
    by (rule accepted_spaced) (use assms in \<open>simp_all add: spaced_def\<close>)
  then have "count_in_window (1 - 1 / 2 ^ 54) T (accepted_calls [] nows) \<le> 47"
    using spaced_window [of "1 - 1 / 2 ^ 54" "accepted_calls [] nows" T]
    by (simp add: max_calls_def count_in_window_def in_window_def [abs_def])
  moreover have "throttled now (call_times st)
      \<longleftrightarrow> length (call_times st) = 47 \<and> now - hd (call_times st) < 1 - 1 / 2 ^ 54"
    by (simp add: throttled_iff max_calls_def)
  moreover have "throttled now (call_times st)
      \<longrightarrow> throttler call_times set_call_times func none now st = (st, none)"
    by (simp add: throttler_def)
  moreover have "throttled now (send_calls s)
      \<longrightarrow> send_throttled_vol now client_order_id sd price volume s = (s, [])
        \<and> send_throttled_reg now client_order_id sd price volume s = (s, [])"
    by (simp add: throttler_def send_throttled_vol_def send_throttled_reg_def)
  moreover have "throttled (clock k) (cancel_calls v)
      \<longrightarrow> cancel_order (Suc depth) clock k client_order_id v = (v, Inr [])"
    by (simp add: throttler_def)
  moreover have "\<not> throttled now (send_calls s)
      \<longrightarrow> send_calls (fst (send_throttled_vol now client_order_id sd price volume s))
            = deque_append max_calls (send_calls s) now
        \<and> send_calls (fst (send_throttled_reg now client_order_id sd price volume s))
            = deque_append max_calls (send_calls s) now"
    by (simp add: throttler_def send_throttled_vol_def send_throttled_reg_def
          send_throttled_body_vol_def send_throttled_body_reg_def)
  moreover have "\<not> throttled (clock k) (cancel_calls v)
      \<longrightarrow> cancel_order (Suc depth) clock k client_order_id v
            = cancel_order depth clock (Suc k) client_order_id
                (v\<lparr>cancel_calls := deque_append max_calls (cancel_calls v) (clock k)\<rparr>)"
    by (simp add: throttler_def)
  ultimately show ?thesis by blast
qed

theorem throttler_rate_limit_witness:
  "sorted paced_readings
   \<and> accepted_calls [] paced_readings = replicate 47 0 @ [1]
   \<and> count_in_window (1 - 1 / 2 ^ 54) (1 / 2) (accepted_calls [] paced_readings) \<le> 47
   \<and> count_in_window (1 - 1 / 2 ^ 54) (1 / 2) (replicate 47 0 @ [1]) = 47
   \<and> throttled (1 / 2) (send_calls (armed_example\<lparr>send_calls := replicate 47 0\<rparr>))
   \<and> send_throttled_vol (1 / 2) 7 BUY 9900 10 (armed_example\<lparr>send_calls := replicate 47 0\<rparr>)
       = (armed_example\<lparr>send_calls := replicate 47 0\<rparr>, [])
   \<and> \<not> throttled 1 (send_calls (armed_example\<lparr>send_calls := replicate 47 0\<rparr>))
   \<and> send_calls (fst (send_throttled_vol 1 7 BUY 9900 10
         (armed_example\<lparr>send_calls := replicate 47 0\<rparr>)))
       = deque_append max_calls (replicate 47 0) 1"
proof -
  have srt: "sorted paced_readings"
    by (simp add: paced_readings_def sorted_append)
  have r: "throttled 0 (replicate 47 0)" "throttled (1 / 2) (replicate 47 0)"
    "\<not> throttled 1 (replicate 47 0)"
    by (simp_all add: throttled_iff max_calls_def)
  have "accepted_calls [] (replicate 47 0 @ [0, 1 / 2, 1])
      = replicate 47 0 @ accepted_calls ([] @ replicate 47 0) [0, 1 / 2, 1]"
    by (rule accepted_burst) (simp add: max_calls_def)
  also have "accepted_calls ([] @ replicate 47 0) [0, 1 / 2, 1] = [1]"
    using r by (simp add: throttler_def)
  finally have acc: "accepted_calls [] paced_readings = replicate 47 0 @ [1]"
    by (simp add: paced_readings_def)
  have cnt: "count_in_window (1 - 1 / 2 ^ 54) (1 / 2) (replicate 47 0 @ [1]) = 47"
    unfolding count_in_window_replicate
    by (simp add: count_in_window_def in_window_def)
  have thr: "throttled (1 / 2) (send_calls (armed_example\<lparr>send_calls := replicate 47 0\<rparr>))"
    "\<not> throttled 1 (send_calls (armed_example\<lparr>send_calls := replicate 47 0\<rparr>))"
    using r by simp_all
  note lim = throttler_rate_limit [OF srt, where T = "1 / 2" and now = "1 / 2"
      and s = "armed_example\<lparr>send_calls := replicate 47 0\<rparr>"
      and client_order_id = 7 and sd = BUY and price = 9900 and volume = 10
      and call_times = id and st = "[]" and set_call_times = "\<lambda>c _. c"
      and func = "\<lambda>c. (c, True)" and none = False
      and clock = "\<lambda>k. 0" and k = 0 and v = "fst init_vol" and depth = 0]
  note lim1 = throttler_rate_limit [OF srt, where T = "1 / 2" and now = 1
      and s = "armed_example\<lparr>send_calls := replicate 47 0\<rparr>"
      and client_order_id = 7 and sd = BUY and price = 9900 and volume = 10
      and call_times = id and st = "[]" and set_call_times = "\<lambda>c _. c"
      and func = "\<lambda>c. (c, True)" and none = False
      and clock = "\<lambda>k. 0" and k = 0 and v = "fst init_vol" and depth = 0]
  have "count_in_window (1 - 1 / 2 ^ 54) (1 / 2) (accepted_calls [] paced_readings) \<le> 47"
    using lim by (rule conjunct1)
  moreover have "send_throttled_vol (1 / 2) 7 BUY 9900 10
      (armed_example\<lparr>send_calls := replicate 47 0\<rparr>)
       = (armed_example\<lparr>send_calls := replicate 47 0\<rparr>, [])"
    using lim thr(1) by blast
  moreover have "send_calls (fst (send_throttled_vol 1 7 BUY 9900 10
         (armed_example\<lparr>send_calls := replicate 47 0\<rparr>)))
       = deque_append max_calls (send_calls (armed_example\<lparr>send_calls := replicate 47 0\<rparr>)) 1"
    using lim1 thr(2) by blast
  ultimately show ?thesis
    using srt acc cnt thr by simp
qed

section \<open>Invariants of the reachable states\<close>

lemma send_throttled_vol_effect:
  "send_effect i sd s (fst (send_throttled_vol now i sd p v s))"
  by (cases sd)
     (auto simp: send_effect_def send_throttled_vol_def throttler_def
        send_throttled_body_vol_def)

lemma send_throttled_reg_effect:
  "send_effect i sd s (fst (send_throttled_reg now i sd p v s))"
  by (cases sd)
     (auto simp: send_effect_def send_throttled_reg_def throttler_def
        send_throttled_body_reg_def)

lemma set_tl_subset: "set (tl xs) \<subseteq> set xs"
  by (cases xs) auto

lemma tracker_inv_evict_bid: "tracker_inv s \<Longrightarrow> tracker_inv (s\<lparr>bidq := tl (bidq s)\<rparr>)"
  by (auto simp: tracker_inv_def distinct_tl dest: subsetD [OF set_tl_subset])

lemma tracker_inv_evict_ask: "tracker_inv s \<Longrightarrow> tracker_inv (s\<lparr>askq := tl (askq s)\<rparr>)"
  by (auto simp: tracker_inv_def distinct_tl dest: subsetD [OF set_tl_subset])

lemma tracker_inv_send:
  assumes inv: "tracker_inv s"
    and eff: "send_effect (order_ids s) sd (s\<lparr>order_ids := order_ids s + 1\<rparr>) s'"
  shows "tracker_inv s'"
proof -
  let ?n = "order_ids s"
  have lt: "\<forall>i \<in> bids s \<union> asks s. i < ?n" using inv by (simp add: tracker_inv_def)
  have sub: "set (bidq s) \<subseteq> bids s" "set (askq s) \<subseteq> asks s"
    using inv by (simp_all add: tracker_inv_def)
  have fresh: "?n \<notin> bids s" "?n \<notin> asks s" "?n \<notin> set (bidq s)" "?n \<notin> set (askq s)"
    using lt sub by auto
  have ids: "order_ids s' = ?n + 1" using eff by (simp add: send_effect_def)
  have lt': "\<forall>i \<in> insert ?n (bids s \<union> asks s). i < ?n + 1"
  proof
    fix i assume "i \<in> insert ?n (bids s \<union> asks s)"
    then have "i = ?n \<or> i < ?n" using lt by blast
    then show "i < ?n + 1" by auto
  qed
  consider
      (same) "bids s' = bids s" "asks s' = asks s" "bidq s' = bidq s" "askq s' = askq s"
    | (buy) "length (bidq s) < 4" "bidq s' = bidq s @ [?n]" "bids s' = insert ?n (bids s)"
        "asks s' = asks s" "askq s' = askq s"
    | (sell) "length (askq s) < 4" "askq s' = askq s @ [?n]" "asks s' = insert ?n (asks s)"
        "bids s' = bids s" "bidq s' = bidq s"
    using eff unfolding send_effect_def by auto
  then show ?thesis
  proof cases
    case same
    then show ?thesis using inv ids lt' by (auto simp: tracker_inv_def)
  next
    case buy
    then show ?thesis using inv ids lt' fresh sub by (auto simp: tracker_inv_def)
  next
    case sell
    then show ?thesis using inv ids lt' fresh sub by (auto simp: tracker_inv_def)
  qed
qed

lemma timer_inv_send:
  assumes "timer_inv s" and "send_effect i sd (s\<lparr>order_ids := n\<rparr>) s'"
  shows "timer_inv s'"
  using assms unfolding send_effect_def timer_inv_def by simp


lemma tracker_inv_frame:
  assumes "tracker_inv s"
    and "bids s' = bids s" "asks s' = asks s" "bidq s' = bidq s" "askq s' = askq s"
    and "order_ids s \<le> order_ids s'"
  shows "tracker_inv s'"
proof -
  have "\<forall>i \<in> bids s \<union> asks s. i < order_ids s'"
  proof
    fix i assume "i \<in> bids s \<union> asks s"
    then have "i < order_ids s" using assms(1) unfolding tracker_inv_def by blast
    then show "i < order_ids s'" using assms(6) by simp
  qed
  then show ?thesis using assms by (simp add: tracker_inv_def)
qed

lemma timer_inv_frame:
  assumes "timer_inv s" and "hedge_time s' = hedge_time s" "hedge_balance s' = hedge_balance s"
  shows "timer_inv s'"
  using assms by (auto simp: timer_inv_def)


lemma evict_oldest_bid_inv:
  "tracker_inv s \<Longrightarrow> tracker_inv (fst (evict_oldest_bid s))"
  "timer_inv s \<Longrightarrow> timer_inv (fst (evict_oldest_bid s))"
  by (simp_all add: evict_oldest_bid_def tracker_inv_evict_bid timer_inv_def)

lemma evict_oldest_ask_inv:
  "tracker_inv s \<Longrightarrow> tracker_inv (fst (evict_oldest_ask s))"
  "timer_inv s \<Longrightarrow> timer_inv (fst (evict_oldest_ask s))"
  by (simp_all add: evict_oldest_ask_def tracker_inv_evict_ask timer_inv_def)

lemma submit_bid_inv:
  fixes s :: "'a trader_scheme"
  assumes send: "\<And>now i sd p v (t :: 'a trader_scheme). send_effect i sd t (fst (send now i sd p v t))"
  shows "tracker_inv s \<Longrightarrow> tracker_inv (fst (submit_bid send nb bp rl s))"
    and "timer_inv s \<Longrightarrow> timer_inv (fst (submit_bid send nb bp rl s))"
  using tracker_inv_send [OF _ send, of s] timer_inv_send [OF _ send, of s]
  by (simp_all add: submit_bid_def)

lemma submit_ask_inv:
  fixes s :: "'a trader_scheme"
  assumes send: "\<And>now i sd p v (t :: 'a trader_scheme). send_effect i sd t (fst (send now i sd p v t))"
  shows "tracker_inv s \<Longrightarrow> tracker_inv (fst (submit_ask send na ap rs s))"
    and "timer_inv s \<Longrightarrow> timer_inv (fst (submit_ask send na ap rs s))"
  using tracker_inv_send [OF _ send, of s] timer_inv_send [OF _ send, of s]
  by (simp_all add: submit_ask_def)

lemma submit_quotes_inv:
  fixes s :: "'a trader_scheme"
  assumes send: "\<And>now i sd p v (t :: 'a trader_scheme). send_effect i sd t (fst (send now i sd p v t))"
  shows "tracker_inv s \<Longrightarrow> tracker_inv (fst (submit_quotes send nb na bp ap s))"
    and "timer_inv s \<Longrightarrow> timer_inv (fst (submit_quotes send nb na bp ap s))"
  by (simp_all add: submit_quotes_def Let_def case_prod_beta evict_oldest_bid_inv
        evict_oldest_ask_inv submit_bid_inv [OF send] submit_ask_inv [OF send])


lemma on_order_filled_message_cases:
  obtains
    (bid) "i \<in> bids s \<or> i \<in> set (bidq s)"
      "on_order_filled_message now i p v s =
         (let s1 = s\<lparr>position := position s + v, hedge_balance := hedge_balance s - v\<rparr>
          in s1\<lparr>hedge_time :=
               if - 10 \<le> hedge_balance s1 \<and> hedge_balance s1 \<le> 10 then None
               else if (hedge_balance s > 0 \<and> hedge_balance s1 < 0)
                       \<or> (hedge_balance s < 0 \<and> hedge_balance s1 > 0) then Some now
               else if hedge_time s = None then Some now else hedge_time s\<rparr>)"
  | (ask) "\<not> (i \<in> bids s \<or> i \<in> set (bidq s))" "i \<in> asks s \<or> i \<in> set (askq s)"
      "on_order_filled_message now i p v s =
         (let s1 = s\<lparr>position := position s - v, hedge_balance := hedge_balance s + v\<rparr>
          in s1\<lparr>hedge_time :=
               if - 10 \<le> hedge_balance s1 \<and> hedge_balance s1 \<le> 10 then None
               else if (hedge_balance s > 0 \<and> hedge_balance s1 < 0)
                       \<or> (hedge_balance s < 0 \<and> hedge_balance s1 > 0) then Some now
               else if hedge_time s = None then Some now else hedge_time s\<rparr>)"
  | (unknown) "\<not> (i \<in> bids s \<or> i \<in> set (bidq s))" "\<not> (i \<in> asks s \<or> i \<in> set (askq s))"
      "on_order_filled_message now i p v s =
         s\<lparr>hedge_time :=
             if - 10 \<le> hedge_balance s \<and> hedge_balance s \<le> 10 then None
             else if hedge_time s = None then Some now else hedge_time s\<rparr>"
proof (cases "i \<in> bids s \<or> i \<in> set (bidq s)")
  case True
  then have "on_order_filled_message now i p v s =
         (let s1 = s\<lparr>position := position s + v, hedge_balance := hedge_balance s - v\<rparr>
          in s1\<lparr>hedge_time :=
               if - 10 \<le> hedge_balance s1 \<and> hedge_balance s1 \<le> 10 then None
               else if (hedge_balance s > 0 \<and> hedge_balance s1 < 0)
                       \<or> (hedge_balance s < 0 \<and> hedge_balance s1 > 0) then Some now
               else if hedge_time s = None then Some now else hedge_time s\<rparr>)"
    by (simp add: on_order_filled_message_def Let_def HEDGE_BOUNDARY_def)
  with True show ?thesis by (rule bid)
next
  case False
  show ?thesis
  proof (cases "i \<in> asks s \<or> i \<in> set (askq s)")
    case True
    with False have "on_order_filled_message now i p v s =
         (let s1 = s\<lparr>position := position s - v, hedge_balance := hedge_balance s + v\<rparr>
          in s1\<lparr>hedge_time :=
               if - 10 \<le> hedge_balance s1 \<and> hedge_balance s1 \<le> 10 then None
               else if (hedge_balance s > 0 \<and> hedge_balance s1 < 0)
                       \<or> (hedge_balance s < 0 \<and> hedge_balance s1 > 0) then Some now
               else if hedge_time s = None then Some now else hedge_time s\<rparr>)"
      by (simp add: on_order_filled_message_def Let_def HEDGE_BOUNDARY_def)
    with False True show ?thesis by (rule ask)
  next
    case True': False
    with False have "on_order_filled_message now i p v s =
         s\<lparr>hedge_time :=
             if - 10 \<le> hedge_balance s \<and> hedge_balance s \<le> 10 then None
             else if hedge_time s = None then Some now else hedge_time s\<rparr>"
      by (simp add: on_order_filled_message_def Let_def HEDGE_BOUNDARY_def)
    with False True' show ?thesis by (rule unknown)
  qed
qed

lemma on_order_filled_message_frame:
  "order_ids (on_order_filled_message now i p v s) = order_ids s"
  "bids (on_order_filled_message now i p v s) = bids s"
  "asks (on_order_filled_message now i p v s) = asks s"
  "bidq (on_order_filled_message now i p v s) = bidq s"
  "askq (on_order_filled_message now i p v s) = askq s"
  by (rule on_order_filled_message_cases [where i = i and s = s and now = now and p = p and v = v];
      simp add: Let_def)+

lemma on_order_filled_message_inv:
  "tracker_inv s \<Longrightarrow> tracker_inv (on_order_filled_message now i p v s)"
  "timer_inv (on_order_filled_message now i p v s)"
proof -
  show "tracker_inv s \<Longrightarrow> tracker_inv (on_order_filled_message now i p v s)"
    by (erule tracker_inv_frame) (simp_all add: on_order_filled_message_frame)
  show "timer_inv (on_order_filled_message now i p v s)"
    by (rule on_order_filled_message_cases [where i = i and s = s and now = now and p = p and v = v];
        auto simp: timer_inv_def Let_def)
qed

lemma on_order_status_message_inv:
  "tracker_inv s \<Longrightarrow> tracker_inv (on_order_status_message i fv rv fees s)"
  "timer_inv s \<Longrightarrow> timer_inv (on_order_status_message i fv rv fees s)"
proof -
  assume inv: "tracker_inv s"
  have le4: "\<And>xs :: int list. length xs \<le> 4 \<Longrightarrow> length (remove1 i xs) \<le> 4"
    by (metis length_remove1 diff_le_self le_trans order_refl)
  show "tracker_inv (on_order_status_message i fv rv fees s)"
    using inv le4 [of "bidq s"] le4 [of "askq s"]
    by (auto simp: on_order_status_message_def tracker_inv_def)
next
  show "timer_inv s \<Longrightarrow> timer_inv (on_order_status_message i fv rv fees s)"
    by (simp add: on_order_status_message_def timer_inv_def)
qed

lemma on_error_message_inv:
  "tracker_inv s \<Longrightarrow> tracker_inv (on_error_message i s)"
  "timer_inv s \<Longrightarrow> timer_inv (on_error_message i s)"
  by (simp_all add: on_error_message_def on_order_status_message_inv)

lemma check_hedge_inv:
  "tracker_inv s \<Longrightarrow> tracker_inv (fst (check_hedge mb ma now s))"
  "timer_inv s \<Longrightarrow> timer_inv (fst (check_hedge mb ma now s))"
proof -
  assume inv: "tracker_inv s"
  have "tracker_inv (s\<lparr>order_ids := order_ids s + 1, hedge_balance := b, hedge_time := None\<rparr>)"
    for b
    by (rule tracker_inv_frame [OF inv]) simp_all
  then show "tracker_inv (fst (check_hedge mb ma now s))"
    using inv by (simp add: check_hedge_def split: option.splits)
next
  show "timer_inv s \<Longrightarrow> timer_inv (fst (check_hedge mb ma now s))"
    by (auto simp: check_hedge_def timer_inv_def HEDGE_BOUNDARY_def split: option.splits)
qed

lemma cancel_order_state:
  "\<exists>c. fst (cancel_order depth clock k i s) = s\<lparr>cancel_calls := c\<rparr>"
proof (induction depth arbitrary: k s)
  case 0
  have "s = s\<lparr>cancel_calls := cancel_calls s\<rparr>" by simp
  then show ?case by (metis cancel_order.simps(1) fst_conv)
next
  case (Suc depth)
  show ?case
  proof (cases "throttled (clock k) (cancel_calls s)")
    case True
    have "s = s\<lparr>cancel_calls := cancel_calls s\<rparr>" by simp
    then show ?thesis using True by (metis cancel_order.simps(2) throttler_def fst_conv)
  next
    case False
    obtain c where "fst (cancel_order depth clock (Suc k) i
        (s\<lparr>cancel_calls := deque_append max_calls (cancel_calls s) (clock k)\<rparr>))
      = s\<lparr>cancel_calls := deque_append max_calls (cancel_calls s) (clock k)\<rparr>
          \<lparr>cancel_calls := c\<rparr>"
      using Suc.IH by blast
    then show ?thesis using False by (auto simp: throttler_def)
  qed
qed

lemma cancel_order_inv:
  "tracker_inv s \<Longrightarrow> tracker_inv (fst (cancel_order depth clock k i s))"
  "timer_inv s \<Longrightarrow> timer_inv (fst (cancel_order depth clock k i s))"
proof -
  obtain c where c: "fst (cancel_order depth clock k i s) = s\<lparr>cancel_calls := c\<rparr>"
    using cancel_order_state by blast
  show "tracker_inv s \<Longrightarrow> tracker_inv (fst (cancel_order depth clock k i s))"
    unfolding c by (simp add: tracker_inv_def)
  show "timer_inv s \<Longrightarrow> timer_inv (fst (cancel_order depth clock k i s))"
    unfolding c by (simp add: timer_inv_def)
qed

lemma submit_quotes_vol_inv:
  fixes s :: "'a trader_scheme"
  shows "tracker_inv s \<Longrightarrow> tracker_inv (fst (submit_quotes send_throttled_vol nb na bp ap s))"
    and "timer_inv s \<Longrightarrow> timer_inv (fst (submit_quotes send_throttled_vol nb na bp ap s))"
  by (rule submit_quotes_inv [where send = send_throttled_vol];
      simp add: send_throttled_vol_effect)+

lemma submit_quotes_reg_inv:
  fixes s :: "'a trader_scheme"
  shows "tracker_inv s \<Longrightarrow> tracker_inv (fst (submit_quotes send_throttled_reg nb na bp ap s))"
    and "timer_inv s \<Longrightarrow> timer_inv (fst (submit_quotes send_throttled_reg nb na bp ap s))"
  by (rule submit_quotes_inv [where send = send_throttled_reg];
      simp add: send_throttled_reg_effect)+

lemma on_order_book_update_message_vol_inv:
  "tracker_inv s \<Longrightarrow>
     tracker_inv (fst (on_order_book_update_message_vol nb na instr sq ap av bp bv s))"
  "timer_inv s \<Longrightarrow>
     timer_inv (fst (on_order_book_update_message_vol nb na instr sq ap av bp bv s))"
proof -
  assume inv: "tracker_inv s"
  have "tracker_inv (s\<lparr>recent_prices := w\<rparr>)" for w
    using inv by (simp add: tracker_inv_def)
  then have "tracker_inv (fst (submit_quotes send_throttled_vol nb na b a
      (s\<lparr>recent_prices := w\<rparr>)))" for b a w
    by (rule submit_quotes_vol_inv(1))
  then show "tracker_inv (fst (on_order_book_update_message_vol nb na instr sq ap av bp bv s))"
    using inv
    by (simp add: on_order_book_update_message_vol_def Let_def case_prod_beta
          split: list.splits)
next
  assume inv: "timer_inv s"
  have "timer_inv (s\<lparr>recent_prices := w\<rparr>)" for w
    using inv by (simp add: timer_inv_def)
  then have "timer_inv (fst (submit_quotes send_throttled_vol nb na b a
      (s\<lparr>recent_prices := w\<rparr>)))" for b a w
    by (rule submit_quotes_vol_inv(2))
  then show "timer_inv (fst (on_order_book_update_message_vol nb na instr sq ap av bp bv s))"
    using inv
    by (simp add: on_order_book_update_message_vol_def Let_def case_prod_beta
          split: list.splits)
qed

lemma on_order_book_update_message_reg_inv:
  "tracker_inv s \<Longrightarrow>
     tracker_inv (fst (on_order_book_update_message_reg pf nb na instr sq ap av bp bv s))"
  "timer_inv s \<Longrightarrow>
     timer_inv (fst (on_order_book_update_message_reg pf nb na instr sq ap av bp bv s))"
proof -
  assume inv: "tracker_inv s"
  have w: "tracker_inv (s\<lparr>etf_prices := w\<rparr>)" "tracker_inv (s\<lparr>fut_prices := w\<rparr>)" for w
    using inv by (simp_all add: tracker_inv_def)
  have "tracker_inv (fst (submit_quotes send_throttled_reg nb na b a
      (s\<lparr>etf_prices := w\<rparr>)))"
    "tracker_inv (fst (submit_quotes send_throttled_reg nb na b a
      (s\<lparr>fut_prices := w\<rparr>)))" for b a w
    by (rule submit_quotes_reg_inv(1), rule w)+
  then show "tracker_inv (fst (on_order_book_update_message_reg pf nb na instr sq ap av bp bv s))"
    using inv w
    by (simp add: on_order_book_update_message_reg_def Let_def case_prod_beta
          split: list.splits option.splits)
next
  assume inv: "timer_inv s"
  have w: "timer_inv (s\<lparr>etf_prices := w\<rparr>)" "timer_inv (s\<lparr>fut_prices := w\<rparr>)" for w
    using inv by (simp_all add: timer_inv_def)
  have "timer_inv (fst (submit_quotes send_throttled_reg nb na b a
      (s\<lparr>etf_prices := w\<rparr>)))"
    "timer_inv (fst (submit_quotes send_throttled_reg nb na b a
      (s\<lparr>fut_prices := w\<rparr>)))" for b a w
    by (rule submit_quotes_reg_inv(2), rule w)+
  then show "timer_inv (fst (on_order_book_update_message_reg pf nb na instr sq ap av bp bv s))"
    using inv w
    by (simp add: on_order_book_update_message_reg_def Let_def case_prod_beta
          split: list.splits option.splits)
qed

lemma step_vol_inv:
  "tracker_inv s \<Longrightarrow> tracker_inv (fst (step_vol mb ma e s))"
  "timer_inv s \<Longrightarrow> timer_inv (fst (step_vol mb ma e s))"
  by (cases e; simp add: on_order_book_update_message_vol_inv on_order_filled_message_inv
        on_order_status_message_inv on_error_message_inv check_hedge_inv cancel_order_inv
        case_prod_beta)+

lemma step_reg_inv:
  "tracker_inv s \<Longrightarrow> tracker_inv (fst (step_reg pf mb ma e s))"
  "timer_inv s \<Longrightarrow> timer_inv (fst (step_reg pf mb ma e s))"
  by (cases e; simp add: on_order_book_update_message_reg_inv on_order_filled_message_inv
        on_order_status_message_inv on_error_message_inv check_hedge_inv
        case_prod_beta)+

lemma init_inv:
  "tracker_inv (fst init_vol)" "timer_inv (fst init_vol)"
  "tracker_inv (fst init_reg)" "timer_inv (fst init_reg)"
  by (simp_all add: init_vol_def init_reg_def tracker_inv_def timer_inv_def)

lemma reachable_vol_inv:
  "reachable_vol mb ma s \<Longrightarrow> tracker_inv s \<and> timer_inv s"
  by (induction rule: reachable_vol.induct) (simp_all add: init_inv step_vol_inv)

lemma reachable_reg_inv:
  "reachable_reg pf mb ma s \<Longrightarrow> tracker_inv s \<and> timer_inv s"
  by (induction rule: reachable_reg.induct) (simp_all add: init_inv step_reg_inv)

section \<open>Evaluating the example traces\<close>

lemmas const_defs = LOT_SIZE_def POSITION_LIMIT_def TICK_SIZE_IN_CENTS_def HEDGE_BOUNDARY_def
  HEDGE_TIME_LIMIT_def max_calls_def interval_def AVG_WINDOW_vol_def MAKER_FEE_def TAKER_FEE_def
  ORDER_THRESHOLD_def MAX_POSITION_FACTOR_def SENSITIVITY_FACTOR_def REBALANCING_THRESHOLD_def
  AVG_WINDOW_reg_def HEDGE_RATIO_LOOKBACK_def CONSERVATIVE_SPREAD_def NORMAL_SPREAD_def

lemma np_mean_replicate: "0 < n \<Longrightarrow> np_mean (replicate n c) = c"
  by (simp add: np_mean_def sum_list_replicate)

lemma np_std_replicate: "0 < n \<Longrightarrow> np_std (replicate n c) = 0"
  by (simp add: np_std_def np_mean_replicate)

lemma quote_steady:
  assumes "- 50 \<le> p" "p \<le> 50" "0 < n"
  shows "quote_prices_vol (replicate n 10000) 10000 p = (9900, 10000)"
proof -
  have "np_std (map real_of_int (replicate n 10000)) = 0"
    using assms(3) by (simp add: np_std_replicate)
  then show ?thesis
    using assms(1,2)
    by (simp add: quote_prices_vol_def adjust_price_def const_defs Let_def)
qed

lemmas eval_defs = on_order_book_update_message_vol_def deque_append_def
  submit_quotes_def evict_oldest_bid_def evict_oldest_ask_def submit_bid_def submit_ask_def
  send_throttled_vol_def throttler_def throttled_def send_throttled_body_vol_def
  book_update_def

lemma quote_steady_simps:
  "quote_prices_vol [10000] 10000 0 = (9900, 10000)"
  "quote_prices_vol [10000, 10000] 10000 0 = (9900, 10000)"
  "quote_prices_vol [10000, 10000] 10000 (- 10) = (9900, 10000)"
  "quote_prices_vol [10000, 10000, 10000] 10000 0 = (9900, 10000)"
  "quote_prices_vol [10000, 10000, 10000, 10000] 10000 0 = (9900, 10000)"
  "quote_prices_vol [10000, 10000, 10000, 10000, 10000] 10000 0 = (9900, 10000)"
  using quote_steady [of 0 "Suc 0"] quote_steady [of 0 "Suc (Suc 0)"]
    quote_steady [of "- 10" "Suc (Suc 0)"]
    quote_steady [of 0 "Suc (Suc (Suc 0))"] quote_steady [of 0 "Suc (Suc (Suc (Suc 0)))"]
    quote_steady [of 0 "Suc (Suc (Suc (Suc (Suc 0))))"]
  by simp_all

lemma step_init:
  "step_vol mb ma book_update (fst init_vol) =
     (quoted_once,
      Inr [SendInsertOrder 1 BUY 9900 10 GOOD_FOR_DAY, CallLater 10 (CancelOrderCb 1),
           SendInsertOrder 2 SELL 10000 10 GOOD_FOR_DAY, CallLater 10 (CancelOrderCb 2)])"
  by (simp add: init_vol_def quoted_once_def eval_defs quote_steady_simps const_defs Let_def)

lemma step_fill_first:
  "step_vol mb ma (OrderFilled 5 2 10000 10) quoted_once =
     (quoted_once\<lparr>position := - 10, hedge_balance := 10\<rparr>, Inr [])"
  by (simp add: quoted_once_def on_order_filled_message_def const_defs Let_def)

lemma step_quote_second:
  "step_vol mb ma book_update (quoted_once\<lparr>position := - 10, hedge_balance := 10\<rparr>) =
     (quoted_twice,
      Inr [SendInsertOrder 3 BUY 9900 10 GOOD_FOR_DAY, CallLater 10 (CancelOrderCb 3),
           SendInsertOrder 4 SELL 10000 10 GOOD_FOR_DAY, CallLater 10 (CancelOrderCb 4)])"
  by (simp add: quoted_once_def quoted_twice_def eval_defs quote_steady_simps const_defs Let_def
        insert_commute)

lemma step_fill_second:
  "step_vol mb ma (OrderFilled 7 4 10000 10) quoted_twice = (armed_after_fills, Inr [])"
  by (simp add: quoted_twice_def armed_after_fills_def on_order_filled_message_def const_defs
        Let_def)

lemma fill_trace_run: "run_vol mb ma fill_trace (fst init_vol) = armed_after_fills"
  by (simp only: fill_trace_def run_vol.simps step_init step_fill_first step_quote_second
        step_fill_second fst_conv)

lemma steady_cycles:
  "fst (step_vol mb ma book_update quoted_once) =
     \<lparr>order_ids = 5, bids = {1, 3}, asks = {2, 4}, position = 0, hedge_balance = 0,
       hedge_time = None, bidq = [1, 3], askq = [2, 4], send_calls = [0, 0, 0, 0],
       recent_prices = [10000, 10000], cancel_calls = []\<rparr>"
  "fst (step_vol mb ma book_update
     \<lparr>order_ids = 5, bids = {1, 3}, asks = {2, 4}, position = 0, hedge_balance = 0,
       hedge_time = None, bidq = [1, 3], askq = [2, 4], send_calls = [0, 0, 0, 0],
       recent_prices = [10000, 10000], cancel_calls = []\<rparr>) =
     \<lparr>order_ids = 7, bids = {1, 3, 5}, asks = {2, 4, 6}, position = 0, hedge_balance = 0,
       hedge_time = None, bidq = [1, 3, 5], askq = [2, 4, 6], send_calls = [0, 0, 0, 0, 0, 0],
       recent_prices = [10000, 10000, 10000], cancel_calls = []\<rparr>"
  "fst (step_vol mb ma book_update
     \<lparr>order_ids = 7, bids = {1, 3, 5}, asks = {2, 4, 6}, position = 0, hedge_balance = 0,
       hedge_time = None, bidq = [1, 3, 5], askq = [2, 4, 6], send_calls = [0, 0, 0, 0, 0, 0],
       recent_prices = [10000, 10000, 10000], cancel_calls = []\<rparr>) = full_queues"
  by (simp_all add: quoted_once_def full_queues_def eval_defs quote_steady_simps const_defs
        Let_def insert_commute)

lemma step_eviction:
  "step_vol mb ma book_update full_queues =
     (after_eviction,
      Inr [SendCancelOrder 1, SendCancelOrder 2,
           SendInsertOrder 9 BUY 9900 10 GOOD_FOR_DAY, CallLater 10 (CancelOrderCb 9),
           SendInsertOrder 10 SELL 10000 10 GOOD_FOR_DAY, CallLater 10 (CancelOrderCb 10)])"
  by (simp add: full_queues_def after_eviction_def eval_defs quote_steady_simps const_defs
        Let_def insert_commute)

lemma eviction_trace_run:
  "run_vol mb ma [book_update, book_update, book_update, book_update] (fst init_vol)
     = full_queues"
  "run_vol mb ma eviction_trace (fst init_vol) = after_eviction"
  by (simp_all only: eviction_trace_def run_vol.simps step_init steady_cycles step_eviction
        fst_conv)

section \<open>Fills and the hedge timer\<close>

lemma fill_attributed_inv:
  assumes "tracker_inv s" and "timer_inv s"
  shows "fill_attributed i volume s (on_order_filled_message now i price volume s)"
proof -
  have disj: "i \<in> asks s \<union> set (askq s) \<Longrightarrow> i \<notin> bids s \<union> set (bidq s)"
    using assms(1) by (auto simp: tracker_inv_def)
  show ?thesis
    by (rule on_order_filled_message_cases
          [where i = i and s = s and now = now and p = price and v = volume])
       (use assms(2) disj in \<open>auto simp: fill_attributed_def Let_def timer_inv_def\<close>)
qed

lemma fill_timer_rule_holds:
  "fill_timer_rule now s (on_order_filled_message now i price volume s)"
  by (rule on_order_filled_message_cases
        [where i = i and s = s and now = now and p = price and v = volume];
      auto simp: fill_timer_rule_def Let_def imbalance_outside_def sign_flipped_def)

lemma reachable_vol_run:
  "reachable_vol mb ma s \<Longrightarrow> reachable_vol mb ma (run_vol mb ma es s)"
  by (induction es arbitrary: s) (auto intro: reachable_vol.vol_step)

lemma reachable_reg_run:
  "reachable_reg pf mb ma s \<Longrightarrow> reachable_reg pf mb ma (run_reg pf mb ma es s)"
  by (induction es arbitrary: s) (auto intro: reachable_reg.reg_step)

text \<open>
  C6. In every reachable state of either variant a fill is attributed by the recorded side of
  its order id: for an id in the bid set or queue the position grows and the hedge imbalance
  shrinks by exactly the fill volume; for an id in the ask set or queue the position shrinks
  and the imbalance grows by exactly the volume; for an id in no set and no queue position,
  imbalance and hedge timer all keep their values.
\<close>

theorem fill_attribution:
  "(reachable_vol minimum_bid maximum_ask v
      \<longrightarrow> fill_attributed client_order_id volume v
            (on_order_filled_message now client_order_id price volume v))
   \<and> (reachable_reg polyfit minimum_bid maximum_ask r
      \<longrightarrow> fill_attributed client_order_id volume r
            (on_order_filled_message now client_order_id price volume r))"
  using reachable_vol_inv [of minimum_bid maximum_ask v]
    reachable_reg_inv [of polyfit minimum_bid maximum_ask r]
  by (simp add: fill_attributed_inv)

theorem fill_attribution_witness:
  "reachable_vol 1 2147483647 quoted_once
   \<and> reachable_reg lstsq_slope 1 2147483647 (fst init_reg)
   \<and> 2 \<in> asks quoted_once \<union> set (askq quoted_once)
   \<and> position (on_order_filled_message 5 2 10000 10 quoted_once) = position quoted_once - 10
   \<and> hedge_balance (on_order_filled_message 5 2 10000 10 quoted_once)
       = hedge_balance quoted_once + 10
   \<and> 7 \<notin> bids quoted_once \<union> set (bidq quoted_once) \<union> asks quoted_once
            \<union> set (askq quoted_once)
   \<and> position (on_order_filled_message 5 7 10000 10 quoted_once) = position quoted_once
   \<and> hedge_time (on_order_filled_message 5 7 10000 10 quoted_once) = hedge_time quoted_once"
proof -
  have rv: "reachable_vol 1 2147483647 quoted_once"
    using reachable_vol.vol_step [OF reachable_vol.vol_init, of 1 2147483647 book_update]
    by (simp only: step_init fst_conv)
  have rr: "reachable_reg lstsq_slope 1 2147483647 (fst init_reg)"
    by (rule reachable_reg.reg_init)
  have m: "2 \<in> asks quoted_once \<union> set (askq quoted_once)"
    "7 \<notin> bids quoted_once \<union> set (bidq quoted_once) \<union> asks quoted_once
            \<union> set (askq quoted_once)"
    by (simp_all add: quoted_once_def)
  note a = fill_attribution [where v = quoted_once and r = "fst init_reg"
      and minimum_bid = 1 and maximum_ask = 2147483647 and polyfit = lstsq_slope
      and client_order_id = 2 and volume = 10 and now = 5 and price = 10000]
  note b = fill_attribution [where v = quoted_once and r = "fst init_reg"
      and minimum_bid = 1 and maximum_ask = 2147483647 and polyfit = lstsq_slope
      and client_order_id = 7 and volume = 10 and now = 5 and price = 10000]
  show ?thesis
    using rv rr m a b unfolding fill_attributed_def by blast
qed

text \<open>
  C7. In every reachable state of either variant the hedge timer is set exactly when the
  hedge imbalance is strictly outside \<open>[-10, 10]\<close>. A fill that leaves the imbalance inside
  the boundary clears the timer; a fill that leaves it outside sets the timer to the time of
  the fill when no timer was running or the imbalance changed sign, and leaves the timer as
  it was otherwise.
\<close>

theorem hedge_timer_invariant:
  fixes s :: "'a trader_scheme"
  shows "(reachable_vol minimum_bid maximum_ask v \<longrightarrow> timer_inv v)
   \<and> (reachable_reg polyfit minimum_bid maximum_ask r \<longrightarrow> timer_inv r)
   \<and> fill_timer_rule now s (on_order_filled_message now client_order_id price volume s)"
  using reachable_vol_inv [of minimum_bid maximum_ask v]
    reachable_reg_inv [of polyfit minimum_bid maximum_ask r]
  by (simp add: fill_timer_rule_holds)

theorem hedge_timer_invariant_witness:
  "reachable_vol 1 2147483647 armed_after_fills
   \<and> reachable_reg lstsq_slope 1 2147483647 (fst init_reg)
   \<and> timer_inv armed_after_fills
   \<and> hedge_time armed_after_fills = Some 7 \<and> hedge_balance armed_after_fills = 20
   \<and> timer_inv (fst init_reg)
   \<and> on_order_filled_message 7 4 10000 10 quoted_twice = armed_after_fills
   \<and> fill_timer_rule 7 quoted_twice armed_after_fills"
proof -
  have rv: "reachable_vol 1 2147483647 armed_after_fills"
    using reachable_vol_run [OF reachable_vol.vol_init, of 1 2147483647 fill_trace]
    by (simp only: fill_trace_run)
  have rr: "reachable_reg lstsq_slope 1 2147483647 (fst init_reg)"
    by (rule reachable_reg.reg_init)
  have st: "on_order_filled_message 7 4 10000 10 quoted_twice = armed_after_fills"
    using step_fill_second by simp
  have v: "hedge_time armed_after_fills = Some 7 \<and> hedge_balance armed_after_fills = 20"
    by (simp add: armed_after_fills_def)
  note h = hedge_timer_invariant [where v = armed_after_fills and r = "fst init_reg"
      and minimum_bid = 1 and maximum_ask = 2147483647 and polyfit = lstsq_slope
      and s = quoted_twice and now = 7 and client_order_id = 4 and price = 10000
      and volume = 10]
  show ?thesis
    using rv rr st v h by simp
qed

section \<open>Queue capacity and eviction\<close>

lemma queue_grows_refl: "queue_grows s s"
  by (simp add: queue_grows_def)

lemma queue_grows_trans:
  assumes "queue_grows s t" and "queue_grows t u"
  shows "queue_grows s u"
proof -
  obtain nb na where st: "bidq t = bidq s @ nb" "\<forall>i \<in> set nb. order_ids s \<le> i"
      "askq t = askq s @ na" "\<forall>i \<in> set na. order_ids s \<le> i"
    using assms(1) unfolding queue_grows_def by blast
  obtain nb' na' where tu: "bidq u = bidq t @ nb'" "\<forall>i \<in> set nb'. order_ids t \<le> i"
      "askq u = askq t @ na'" "\<forall>i \<in> set na'. order_ids t \<le> i"
    using assms(2) unfolding queue_grows_def by blast
  have le: "order_ids s \<le> order_ids t" "order_ids t \<le> order_ids u"
    using assms unfolding queue_grows_def by blast+
  have b: "bidq u = bidq s @ (nb @ nb')" "\<forall>i \<in> set (nb @ nb'). order_ids s \<le> i"
    using st tu le by auto
  have a: "askq u = askq s @ (na @ na')" "\<forall>i \<in> set (na @ na'). order_ids s \<le> i"
    using st tu le by auto
  have sub: "bids s \<subseteq> bids u" "asks s \<subseteq> asks u"
    using assms unfolding queue_grows_def by blast+
  show ?thesis
    unfolding queue_grows_def using le sub a b by (meson order_trans)
qed

lemma send_effect_grows:
  assumes "send_effect (order_ids s) sd (s\<lparr>order_ids := order_ids s + 1\<rparr>) s'"
  shows "queue_grows s s'"
proof -
  have "bidq s' = bidq s @ [] \<or> bidq s' = bidq s @ [order_ids s]"
    "askq s' = askq s @ [] \<or> askq s' = askq s @ [order_ids s]"
    "bids s \<subseteq> bids s'" "asks s \<subseteq> asks s'" "order_ids s \<le> order_ids s'"
    using assms unfolding send_effect_def by auto
  then show ?thesis
    unfolding queue_grows_def
    by (metis empty_iff empty_set order_refl set_ConsD)
qed

lemma submit_bid_grows:
  fixes s :: "'a trader_scheme"
  assumes send: "\<And>now i sd p v (t :: 'a trader_scheme). send_effect i sd t (fst (send now i sd p v t))"
  shows "queue_grows s (fst (submit_bid send nb bp rl s))"
  using send_effect_grows [OF send, of s] by (simp add: submit_bid_def queue_grows_refl)

lemma submit_ask_grows:
  fixes s :: "'a trader_scheme"
  assumes send: "\<And>now i sd p v (t :: 'a trader_scheme). send_effect i sd t (fst (send now i sd p v t))"
  shows "queue_grows s (fst (submit_ask send na ap rs s))"
  using send_effect_grows [OF send, of s] by (simp add: submit_ask_def queue_grows_refl)

text \<open>The result of the tail of the quoting cycle, stage by stage.\<close>

lemma submit_quotes_stages:
  fixes s :: "'a trader_scheme"
  assumes send: "\<And>now i sd p v (t :: 'a trader_scheme). send_effect i sd t (fst (send now i sd p v t))"
  shows "queue_grows (fst (evict_oldest_ask (fst (evict_oldest_bid s))))
           (fst (submit_quotes send nb na bp ap s))"
    and "\<exists>rest. snd (submit_quotes send nb na bp ap s) =
           snd (evict_oldest_bid s) @ snd (evict_oldest_ask (fst (evict_oldest_bid s))) @ rest"
proof -
  show "queue_grows (fst (evict_oldest_ask (fst (evict_oldest_bid s))))
           (fst (submit_quotes send nb na bp ap s))"
    unfolding submit_quotes_def Let_def case_prod_beta fst_conv
    by (rule queue_grows_trans [OF submit_bid_grows [where send = send, OF send]
          submit_ask_grows [where send = send, OF send]])
  show "\<exists>rest. snd (submit_quotes send nb na bp ap s) =
           snd (evict_oldest_bid s) @ snd (evict_oldest_ask (fst (evict_oldest_bid s))) @ rest"
    unfolding submit_quotes_def Let_def case_prod_beta snd_conv by blast
qed

lemma evicted_fields:
  "order_ids (fst (evict_oldest_ask (fst (evict_oldest_bid s)))) = order_ids s"
  "bids (fst (evict_oldest_ask (fst (evict_oldest_bid s)))) = bids s"
  "asks (fst (evict_oldest_ask (fst (evict_oldest_bid s)))) = asks s"
  "bidq (fst (evict_oldest_ask (fst (evict_oldest_bid s)))) =
     (if 4 \<le> length (bidq s) then tl (bidq s) else bidq s)"
  "askq (fst (evict_oldest_ask (fst (evict_oldest_bid s)))) =
     (if 4 \<le> length (askq s) then tl (askq s) else askq s)"
  by (simp_all add: evict_oldest_ask_def evict_oldest_bid_def)

lemma submit_quotes_evicts:
  fixes s :: "'a trader_scheme"
  assumes send: "\<And>now i sd p v (t :: 'a trader_scheme). send_effect i sd t (fst (send now i sd p v t))"
  shows "evicts_first s (fst (submit_quotes send nb na bp ap s))
           (snd (submit_quotes send nb na bp ap s))"
proof -
  let ?e = "fst (evict_oldest_ask (fst (evict_oldest_bid s)))"
  let ?s' = "fst (submit_quotes send nb na bp ap s)"
  obtain rest where acts: "snd (submit_quotes send nb na bp ap s) =
      snd (evict_oldest_bid s) @ snd (evict_oldest_ask (fst (evict_oldest_bid s))) @ rest"
    using submit_quotes_stages(2) [where send = send, OF send] by blast
  have g: "queue_grows ?e ?s'" by (rule submit_quotes_stages(1) [where send = send, OF send])
  obtain newb newa where q: "bidq ?s' = bidq ?e @ newb" "askq ?s' = askq ?e @ newa"
    using g unfolding queue_grows_def by blast
  have bid: "4 \<le> length (bidq s) \<Longrightarrow>
      (\<exists>rest. snd (submit_quotes send nb na bp ap s) = SendCancelOrder (hd (bidq s)) # rest)
      \<and> (\<exists>new. bidq ?s' = tl (bidq s) @ new)"
    using acts q(1) by (simp add: evicted_fields) (simp add: evict_oldest_bid_def)
  have ask: "4 \<le> length (askq s) \<Longrightarrow>
      (\<exists>pre rest. snd (submit_quotes send nb na bp ap s)
           = pre @ SendCancelOrder (hd (askq s)) # rest \<and> (\<forall>a \<in> set pre. \<not> is_insert a))
      \<and> (\<exists>new. askq ?s' = tl (askq s) @ new)"
  proof -
    assume full: "4 \<le> length (askq s)"
    have "snd (evict_oldest_ask (fst (evict_oldest_bid s))) = [SendCancelOrder (hd (askq s))]"
      using full by (simp add: evict_oldest_ask_def evict_oldest_bid_def)
    then have "snd (submit_quotes send nb na bp ap s)
        = snd (evict_oldest_bid s) @ SendCancelOrder (hd (askq s)) # rest"
      using acts by simp
    moreover have "\<forall>a \<in> set (snd (evict_oldest_bid s)). \<not> is_insert a"
      by (simp add: evict_oldest_bid_def)
    ultimately show ?thesis using q(2) full by (auto simp: evicted_fields)
  qed
  show ?thesis unfolding evicts_first_def using bid ask by blast
qed


lemma vol_cycle_unfold:
  assumes "quoting_cycle_vol instr ap bp"
  shows "\<exists>b a w. on_order_book_update_message_vol nb na instr sq ap av bp bv s =
           (fst (submit_quotes send_throttled_vol nb na b a (s\<lparr>recent_prices := w\<rparr>)),
            Inr (snd (submit_quotes send_throttled_vol nb na b a (s\<lparr>recent_prices := w\<rparr>))))"
proof -
  obtain b0 bs a0 as where l: "bp = b0 # bs" "ap = a0 # as" "0 < b0" "0 < a0" "instr = FUTURE"
    using assms unfolding quoting_cycle_vol_def by (cases bp; cases ap) auto
  show ?thesis
    unfolding on_order_book_update_message_vol_def l
    by (simp add: l Let_def case_prod_beta) blast
qed

lemma reg_cycle_unfold:
  assumes "quoting_cycle_reg instr ap bp s"
  shows "\<exists>b a w. on_order_book_update_message_reg pf nb na instr sq ap av bp bv s =
           (fst (submit_quotes send_throttled_reg nb na b a (s\<lparr>fut_prices := w\<rparr>)),
            Inr (snd (submit_quotes send_throttled_reg nb na b a (s\<lparr>fut_prices := w\<rparr>))))"
proof -
  obtain b0 bs a0 as where l: "bp = b0 # bs" "ap = a0 # as" "\<not> (b0 \<le> 0 \<and> a0 \<le> 0)"
      "instr = FUTURE" "10 \<le> length (etf_prices s)" "9 \<le> length (fut_prices s)"
    using assms unfolding quoting_cycle_reg_def by (cases bp; cases ap) auto
  have len: "10 \<le> length (deque_append AVG_WINDOW_reg (fut_prices s) m)" for m
    using l(6) by (simp add: deque_append_def AVG_WINDOW_reg_def Let_def)
  obtain h where hr: "calculate_hedge_ratio pf
      (s\<lparr>fut_prices := deque_append AVG_WINDOW_reg (fut_prices s) ((b0 + a0) div 2)\<rparr>) = Some h"
    using l(5) len [of "(b0 + a0) div 2"]
    by (simp add: calculate_hedge_ratio_def HEDGE_RATIO_LOOKBACK_def)
  have ne: "etf_prices s \<noteq> []"
    "deque_append AVG_WINDOW_reg (fut_prices s) ((b0 + a0) div 2) \<noteq> []"
    using l(5) len [of "(b0 + a0) div 2"] by auto
  show ?thesis
    unfolding on_order_book_update_message_reg_def l
    using hr ne l(3) by (simp add: Let_def case_prod_beta) blast
qed

lemma evicts_first_cong:
  "bidq t = bidq s \<Longrightarrow> askq t = askq s \<Longrightarrow> evicts_first t s' acts \<Longrightarrow> evicts_first s s' acts"
  by (simp add: evicts_first_def)

lemma vol_cycle_evicts:
  assumes "quoting_cycle_vol instr ap bp"
  shows "\<exists>acts. snd (on_order_book_update_message_vol nb na instr sq ap av bp bv s) = Inr acts
           \<and> evicts_first s (fst (on_order_book_update_message_vol nb na instr sq ap av bp bv s))
                 acts"
proof -
  obtain b a w where u: "on_order_book_update_message_vol nb na instr sq ap av bp bv s =
           (fst (submit_quotes send_throttled_vol nb na b a (s\<lparr>recent_prices := w\<rparr>)),
            Inr (snd (submit_quotes send_throttled_vol nb na b a (s\<lparr>recent_prices := w\<rparr>))))"
    using vol_cycle_unfold [OF assms] by blast
  have "evicts_first (s\<lparr>recent_prices := w\<rparr>)
          (fst (submit_quotes send_throttled_vol nb na b a (s\<lparr>recent_prices := w\<rparr>)))
          (snd (submit_quotes send_throttled_vol nb na b a (s\<lparr>recent_prices := w\<rparr>)))"
    by (rule submit_quotes_evicts [where send = send_throttled_vol])
       (rule send_throttled_vol_effect)
  then show ?thesis
    unfolding u by (simp add: evicts_first_def)
qed

lemma reg_cycle_evicts:
  assumes "quoting_cycle_reg instr ap bp s"
  shows "\<exists>acts. snd (on_order_book_update_message_reg pf nb na instr sq ap av bp bv s) = Inr acts
           \<and> evicts_first s (fst (on_order_book_update_message_reg pf nb na instr sq ap av bp bv s))
                 acts"
proof -
  obtain b a w where u: "on_order_book_update_message_reg pf nb na instr sq ap av bp bv s =
           (fst (submit_quotes send_throttled_reg nb na b a (s\<lparr>fut_prices := w\<rparr>)),
            Inr (snd (submit_quotes send_throttled_reg nb na b a (s\<lparr>fut_prices := w\<rparr>))))"
    using reg_cycle_unfold [OF assms] by blast
  have "evicts_first (s\<lparr>fut_prices := w\<rparr>)
          (fst (submit_quotes send_throttled_reg nb na b a (s\<lparr>fut_prices := w\<rparr>)))
          (snd (submit_quotes send_throttled_reg nb na b a (s\<lparr>fut_prices := w\<rparr>)))"
    by (rule submit_quotes_evicts [where send = send_throttled_reg])
       (rule send_throttled_reg_effect)
  then show ?thesis
    unfolding u by (simp add: evicts_first_def)
qed

lemma send_throttled_full:
  "4 \<le> length (bidq s) \<Longrightarrow>
     bidq (fst (send_throttled_vol now i BUY p v s)) = bidq s
     \<and> snd (send_throttled_vol now i BUY p v s) = []
     \<and> bidq (fst (send_throttled_reg now i BUY p v s)) = bidq s
     \<and> snd (send_throttled_reg now i BUY p v s) = []"
  "4 \<le> length (askq s) \<Longrightarrow>
     askq (fst (send_throttled_vol now i SELL p v s)) = askq s
     \<and> snd (send_throttled_vol now i SELL p v s) = []
     \<and> askq (fst (send_throttled_reg now i SELL p v s)) = askq s
     \<and> snd (send_throttled_reg now i SELL p v s) = []"
  by (simp_all add: send_throttled_vol_def send_throttled_reg_def throttler_def
        send_throttled_body_vol_def send_throttled_body_reg_def)

text \<open>
  C9. In every reachable state of either variant each queue holds at most four ids. In a
  quoting cycle a queue that holds four ids loses its oldest id, and the gateway's cancel for
  that id is emitted, before anything is sent for that side: for the bid queue the cancel is
  the first action of the cycle, for the ask queue only the cancel of the oldest bid can
  precede it. \<^verbatim>\<open>send_throttled\<close> called with a queue of four ids leaves the queue as it is and
  sends nothing.
\<close>

theorem queue_capacity:
  fixes s :: "'a trader_scheme"
  shows "(reachable_vol minimum_bid maximum_ask v
            \<longrightarrow> length (bidq v) \<le> 4 \<and> length (askq v) \<le> 4)
    \<and> (reachable_reg polyfit minimum_bid maximum_ask r
            \<longrightarrow> length (bidq r) \<le> 4 \<and> length (askq r) \<le> 4)
    \<and> (quoting_cycle_vol instr ask_prices bid_prices
         \<longrightarrow> (\<exists>acts. snd (on_order_book_update_message_vol now_bid now_ask instr sq
                           ask_prices ask_volumes bid_prices bid_volumes v) = Inr acts
               \<and> evicts_first v
                     (fst (on_order_book_update_message_vol now_bid now_ask instr sq
                            ask_prices ask_volumes bid_prices bid_volumes v)) acts))
    \<and> (quoting_cycle_reg instr ask_prices bid_prices r
         \<longrightarrow> (\<exists>acts. snd (on_order_book_update_message_reg polyfit now_bid now_ask instr sq
                           ask_prices ask_volumes bid_prices bid_volumes r) = Inr acts
               \<and> evicts_first r
                     (fst (on_order_book_update_message_reg polyfit now_bid now_ask instr sq
                            ask_prices ask_volumes bid_prices bid_volumes r)) acts))
    \<and> (4 \<le> length (bidq s)
         \<longrightarrow> bidq (fst (send_throttled_vol now i BUY price volume s)) = bidq s
           \<and> snd (send_throttled_vol now i BUY price volume s) = []
           \<and> bidq (fst (send_throttled_reg now i BUY price volume s)) = bidq s
           \<and> snd (send_throttled_reg now i BUY price volume s) = [])
    \<and> (4 \<le> length (askq s)
         \<longrightarrow> askq (fst (send_throttled_vol now i SELL price volume s)) = askq s
           \<and> snd (send_throttled_vol now i SELL price volume s) = []
           \<and> askq (fst (send_throttled_reg now i SELL price volume s)) = askq s
           \<and> snd (send_throttled_reg now i SELL price volume s) = [])"
proof -
  have "reachable_vol minimum_bid maximum_ask v
      \<longrightarrow> length (bidq v) \<le> 4 \<and> length (askq v) \<le> 4"
    using reachable_vol_inv [of minimum_bid maximum_ask v] by (simp add: tracker_inv_def)
  moreover have "reachable_reg polyfit minimum_bid maximum_ask r
      \<longrightarrow> length (bidq r) \<le> 4 \<and> length (askq r) \<le> 4"
    using reachable_reg_inv [of polyfit minimum_bid maximum_ask r] by (simp add: tracker_inv_def)
  ultimately show ?thesis
    using vol_cycle_evicts [of instr ask_prices bid_prices now_bid now_ask sq ask_volumes
        bid_volumes v]
      reg_cycle_evicts [of instr ask_prices bid_prices r polyfit now_bid now_ask sq
        ask_volumes bid_volumes]
      send_throttled_full [of s now i price volume]
    by blast
qed

theorem queue_capacity_witness:
  "reachable_vol 1 2147483647 full_queues
   \<and> length (bidq full_queues) = 4 \<and> length (askq full_queues) = 4
   \<and> quoting_cycle_vol FUTURE [10100] [9900]
   \<and> on_order_book_update_message_vol 0 0 FUTURE 1 [10100] [5] [9900] [5] full_queues =
       (after_eviction,
        Inr [SendCancelOrder 1, SendCancelOrder 2,
             SendInsertOrder 9 BUY 9900 10 GOOD_FOR_DAY, CallLater 10 (CancelOrderCb 9),
             SendInsertOrder 10 SELL 10000 10 GOOD_FOR_DAY, CallLater 10 (CancelOrderCb 10)])
   \<and> evicts_first full_queues after_eviction
         [SendCancelOrder 1, SendCancelOrder 2,
          SendInsertOrder 9 BUY 9900 10 GOOD_FOR_DAY, CallLater 10 (CancelOrderCb 9),
          SendInsertOrder 10 SELL 10000 10 GOOD_FOR_DAY, CallLater 10 (CancelOrderCb 10)]
   \<and> send_throttled_vol 0 9 BUY 9900 10 full_queues
       = (full_queues\<lparr>send_calls := [0, 0, 0, 0, 0, 0, 0, 0, 0]\<rparr>, [])"
proof -
  have rv: "reachable_vol 1 2147483647 full_queues"
    using reachable_vol_run [OF reachable_vol.vol_init, of 1 2147483647
        "[book_update, book_update, book_update, book_update]"]
    by (simp only: eviction_trace_run)
  have len: "length (bidq full_queues) = 4 \<and> length (askq full_queues) = 4"
    by (simp add: full_queues_def)
  have qc: "quoting_cycle_vol FUTURE [10100] [9900]"
    by (simp add: quoting_cycle_vol_def)
  have st: "on_order_book_update_message_vol 0 0 FUTURE 1 [10100] [5] [9900] [5] full_queues =
       (after_eviction,
        Inr [SendCancelOrder 1, SendCancelOrder 2,
             SendInsertOrder 9 BUY 9900 10 GOOD_FOR_DAY, CallLater 10 (CancelOrderCb 9),
             SendInsertOrder 10 SELL 10000 10 GOOD_FOR_DAY, CallLater 10 (CancelOrderCb 10)])"
    using step_eviction by (simp add: book_update_def)
  have snd: "send_throttled_vol 0 9 BUY 9900 10 full_queues
       = (full_queues\<lparr>send_calls := [0, 0, 0, 0, 0, 0, 0, 0, 0]\<rparr>, [])"
    by (simp add: full_queues_def send_throttled_vol_def throttler_def throttled_def
          send_throttled_body_vol_def deque_append_def max_calls_def)
  note q = queue_capacity [where v = full_queues and r = "fst init_reg" and s = full_queues
      and minimum_bid = 1 and maximum_ask = 2147483647 and polyfit = lstsq_slope
      and instr = FUTURE and ask_prices = "[10100]" and bid_prices = "[9900]"
      and now_bid = 0 and now_ask = 0 and sq = 1 and ask_volumes = "[5]"
      and bid_volumes = "[5]" and now = 0 and i = 9 and price = 9900 and volume = 10]
  have "evicts_first full_queues after_eviction
         [SendCancelOrder 1, SendCancelOrder 2,
          SendInsertOrder 9 BUY 9900 10 GOOD_FOR_DAY, CallLater 10 (CancelOrderCb 9),
          SendInsertOrder 10 SELL 10000 10 GOOD_FOR_DAY, CallLater 10 (CancelOrderCb 10)]"
    using q qc unfolding st by simp
  then show ?thesis
    using rv len qc st snd by simp
qed

section \<open>Queues, sets and completed orders\<close>

lemma submit_quotes_sets:
  fixes s :: "'a trader_scheme"
  assumes send: "\<And>now i sd p v (t :: 'a trader_scheme). send_effect i sd t (fst (send now i sd p v t))"
  shows "bids s \<subseteq> bids (fst (submit_quotes send nb na bp ap s))"
    and "asks s \<subseteq> asks (fst (submit_quotes send nb na bp ap s))"
  using submit_quotes_stages(1) [where send = send, OF send, of s nb na bp ap]
  by (simp_all add: queue_grows_def evicted_fields)

lemma submit_quotes_evicted:
  fixes s :: "'a trader_scheme"
  assumes send: "\<And>now i sd p v (t :: 'a trader_scheme). send_effect i sd t (fst (send now i sd p v t))"
    and inv: "tracker_inv s"
  shows "4 \<le> length (bidq s) \<Longrightarrow>
           hd (bidq s) \<notin> set (bidq (fst (submit_quotes send nb na bp ap s)))
           \<and> hd (bidq s) \<in> bids (fst (submit_quotes send nb na bp ap s))"
    and "4 \<le> length (askq s) \<Longrightarrow>
           hd (askq s) \<notin> set (askq (fst (submit_quotes send nb na bp ap s)))
           \<and> hd (askq s) \<in> asks (fst (submit_quotes send nb na bp ap s))"
proof -
  let ?s' = "fst (submit_quotes send nb na bp ap s)"
  have g: "queue_grows (fst (evict_oldest_ask (fst (evict_oldest_bid s)))) ?s'"
    by (rule submit_quotes_stages(1) [where send = send, OF send])
  obtain newb newa where q:
      "bidq ?s' = (if 4 \<le> length (bidq s) then tl (bidq s) else bidq s) @ newb"
      "\<forall>i \<in> set newb. order_ids s \<le> i"
      "askq ?s' = (if 4 \<le> length (askq s) then tl (askq s) else askq s) @ newa"
      "\<forall>i \<in> set newa. order_ids s \<le> i"
    using g unfolding queue_grows_def evicted_fields by blast
  have sub: "bids s \<subseteq> bids ?s'" "asks s \<subseteq> asks ?s'"
    using g unfolding queue_grows_def evicted_fields by blast+
  have old: "\<forall>i \<in> bids s \<union> asks s. i < order_ids s"
    "set (bidq s) \<subseteq> bids s" "set (askq s) \<subseteq> asks s" "distinct (bidq s)" "distinct (askq s)"
    using inv by (simp_all add: tracker_inv_def)
  show "hd (bidq s) \<notin> set (bidq ?s') \<and> hd (bidq s) \<in> bids ?s'" if full: "4 \<le> length (bidq s)"
  proof -
    obtain x xs where l: "bidq s = x # xs" using full by (cases "bidq s") auto
    have "x \<in> bids s" using old(2) l by simp
    moreover have "x < order_ids s" using old(1) calculation by blast
    moreover have "x \<notin> set xs" using old(4) l by simp
    ultimately show ?thesis using q(1,2) sub(1) full l by auto
  qed
  show "hd (askq s) \<notin> set (askq ?s') \<and> hd (askq s) \<in> asks ?s'" if full: "4 \<le> length (askq s)"
  proof -
    obtain x xs where l: "askq s = x # xs" using full by (cases "askq s") auto
    have "x \<in> asks s" using old(3) l by simp
    moreover have "x < order_ids s" using old(1) calculation by blast
    moreover have "x \<notin> set xs" using old(5) l by simp
    ultimately show ?thesis using q(3,4) sub(2) full l by auto
  qed
qed

lemma evicted_staysI:
  assumes inv: "tracker_inv s'" "timer_inv s'"
    and b: "4 \<le> length (bidq s) \<Longrightarrow> hd (bidq s) \<notin> set (bidq s') \<and> hd (bidq s) \<in> bids s'"
    and a: "4 \<le> length (askq s) \<Longrightarrow> hd (askq s) \<notin> set (askq s') \<and> hd (askq s) \<in> asks s'"
  shows "evicted_stays s s'"
proof -
  have f: "fill_attributed i volume s' (on_order_filled_message now i price volume s')"
    for i volume now price
    by (rule fill_attributed_inv [OF inv])
  show ?thesis
    unfolding evicted_stays_def
    using a b f unfolding fill_attributed_def by blast
qed

lemma vol_cycle_evicted_stays:
  assumes "quoting_cycle_vol instr ap bp" and inv: "tracker_inv s" "timer_inv s"
  shows "evicted_stays s (fst (on_order_book_update_message_vol nb na instr sq ap av bp bv s))"
proof -
  obtain b a w where u: "on_order_book_update_message_vol nb na instr sq ap av bp bv s =
           (fst (submit_quotes send_throttled_vol nb na b a (s\<lparr>recent_prices := w\<rparr>)),
            Inr (snd (submit_quotes send_throttled_vol nb na b a (s\<lparr>recent_prices := w\<rparr>))))"
    using vol_cycle_unfold [OF assms(1)] by blast
  have inv': "tracker_inv (s\<lparr>recent_prices := w\<rparr>)"
    using inv(1) by (simp add: tracker_inv_def)
  note e = submit_quotes_evicted [where send = send_throttled_vol, OF send_throttled_vol_effect inv',
      of nb na b a]
  show ?thesis
  proof (rule evicted_staysI)
    show "tracker_inv (fst (on_order_book_update_message_vol nb na instr sq ap av bp bv s))"
      "timer_inv (fst (on_order_book_update_message_vol nb na instr sq ap av bp bv s))"
      using inv by (simp_all add: on_order_book_update_message_vol_inv)
  qed (use e in \<open>simp_all add: u\<close>)
qed

lemma reg_cycle_evicted_stays:
  assumes "quoting_cycle_reg instr ap bp s" and inv: "tracker_inv s" "timer_inv s"
  shows "evicted_stays s (fst (on_order_book_update_message_reg pf nb na instr sq ap av bp bv s))"
proof -
  obtain b a w where u: "on_order_book_update_message_reg pf nb na instr sq ap av bp bv s =
           (fst (submit_quotes send_throttled_reg nb na b a (s\<lparr>fut_prices := w\<rparr>)),
            Inr (snd (submit_quotes send_throttled_reg nb na b a (s\<lparr>fut_prices := w\<rparr>))))"
    using reg_cycle_unfold [OF assms(1)] by blast
  have inv': "tracker_inv (s\<lparr>fut_prices := w\<rparr>)"
    using inv(1) by (simp add: tracker_inv_def)
  note e = submit_quotes_evicted [where send = send_throttled_reg, OF send_throttled_reg_effect inv',
      of nb na b a]
  show ?thesis
  proof (rule evicted_staysI)
    show "tracker_inv (fst (on_order_book_update_message_reg pf nb na instr sq ap av bp bv s))"
      "timer_inv (fst (on_order_book_update_message_reg pf nb na instr sq ap av bp bv s))"
      using inv by (simp_all add: on_order_book_update_message_reg_inv)
  qed (use e in \<open>simp_all add: u\<close>)
qed

lemma on_order_book_update_message_vol_sets:
  "bids s \<subseteq> bids (fst (on_order_book_update_message_vol nb na instr sq ap av bp bv s))"
  "asks s \<subseteq> asks (fst (on_order_book_update_message_vol nb na instr sq ap av bp bv s))"
proof -
  have "bids s \<subseteq> bids (fst (submit_quotes send_throttled_vol nb na b a (s\<lparr>recent_prices := w\<rparr>)))"
    "asks s \<subseteq> asks (fst (submit_quotes send_throttled_vol nb na b a (s\<lparr>recent_prices := w\<rparr>)))"
    for b a w
    using submit_quotes_sets [where send = send_throttled_vol, OF send_throttled_vol_effect,
        of "s\<lparr>recent_prices := w\<rparr>" nb na b a]
    by simp_all
  then show
    "bids s \<subseteq> bids (fst (on_order_book_update_message_vol nb na instr sq ap av bp bv s))"
    "asks s \<subseteq> asks (fst (on_order_book_update_message_vol nb na instr sq ap av bp bv s))"
    by (simp_all add: on_order_book_update_message_vol_def Let_def case_prod_beta
          split: list.splits)
qed

lemma on_order_book_update_message_reg_sets:
  "bids s \<subseteq> bids (fst (on_order_book_update_message_reg pf nb na instr sq ap av bp bv s))"
  "asks s \<subseteq> asks (fst (on_order_book_update_message_reg pf nb na instr sq ap av bp bv s))"
proof -
  have "bids s \<subseteq> bids (fst (submit_quotes send_throttled_reg nb na b a (s\<lparr>fut_prices := w\<rparr>)))"
    "asks s \<subseteq> asks (fst (submit_quotes send_throttled_reg nb na b a (s\<lparr>fut_prices := w\<rparr>)))"
    "bids s \<subseteq> bids (fst (submit_quotes send_throttled_reg nb na b a (s\<lparr>etf_prices := w\<rparr>)))"
    "asks s \<subseteq> asks (fst (submit_quotes send_throttled_reg nb na b a (s\<lparr>etf_prices := w\<rparr>)))"
    for b a w
    using submit_quotes_sets [where send = send_throttled_reg, OF send_throttled_reg_effect,
        of "s\<lparr>fut_prices := w\<rparr>" nb na b a]
      submit_quotes_sets [where send = send_throttled_reg, OF send_throttled_reg_effect,
        of "s\<lparr>etf_prices := w\<rparr>" nb na b a]
    by simp_all
  then show
    "bids s \<subseteq> bids (fst (on_order_book_update_message_reg pf nb na instr sq ap av bp bv s))"
    "asks s \<subseteq> asks (fst (on_order_book_update_message_reg pf nb na instr sq ap av bp bv s))"
    by (simp_all add: on_order_book_update_message_reg_def Let_def case_prod_beta
          split: list.splits option.splits)
qed

lemma status_removes:
  "i \<in> bids s \<Longrightarrow> i \<notin> bids (on_order_status_message j fv rv fees s) \<Longrightarrow> i = j \<and> rv = 0"
  "i \<in> asks s \<Longrightarrow> i \<notin> asks (on_order_status_message j fv rv fees s) \<Longrightarrow> i = j \<and> rv = 0"
  by (auto simp: on_order_status_message_def split: if_splits)

lemma error_removes:
  "i \<in> bids s \<Longrightarrow> i \<notin> bids (on_error_message j s) \<Longrightarrow> i = j"
  "i \<in> asks s \<Longrightarrow> i \<notin> asks (on_error_message j s) \<Longrightarrow> i = j"
  by (auto simp: on_error_message_def dest: status_removes split: if_splits)

lemma check_hedge_sets:
  "bids (fst (check_hedge mb ma now s)) = bids s"
  "asks (fst (check_hedge mb ma now s)) = asks s"
  by (simp_all add: check_hedge_def split: option.splits)

lemma cancel_order_sets:
  "bids (fst (cancel_order depth clock k i s)) = bids s"
  "asks (fst (cancel_order depth clock k i s)) = asks s"
proof -
  obtain c where c: "fst (cancel_order depth clock k i s) = s\<lparr>cancel_calls := c\<rparr>"
    using cancel_order_state by blast
  show "bids (fst (cancel_order depth clock k i s)) = bids s"
    "asks (fst (cancel_order depth clock k i s)) = asks s"
    unfolding c by simp_all
qed

lemma step_vol_leaves:
  assumes "i \<in> bids s \<and> i \<notin> bids (fst (step_vol mb ma e s))
         \<or> i \<in> asks s \<and> i \<notin> asks (fst (step_vol mb ma e s))"
  shows "completes e i"
proof (cases e)
  case (OrderBookUpdate nb na instr sq ap av bp bv)
  then show ?thesis
    using assms on_order_book_update_message_vol_sets [of s nb na instr sq ap av bp bv]
    by auto
next
  case (OrderFilled now j p v)
  then show ?thesis using assms by (simp add: on_order_filled_message_frame)
next
  case (OrderStatus j fv rv fees)
  then show ?thesis using assms status_removes [of i s j fv rv fees]
    by (auto simp: completes_def)
next
  case (ErrorMessage j)
  then show ?thesis using assms error_removes [of i s j] by (auto simp: completes_def)
next
  case (CheckHedgeTimer now)
  then show ?thesis using assms check_hedge_sets [of mb ma now s]
    by (simp add: case_prod_beta)
next
  case (CancelTimer depth clock j)
  then show ?thesis using assms by (simp add: cancel_order_sets)
qed (use assms in simp_all)

lemma step_reg_leaves:
  assumes "i \<in> bids s \<and> i \<notin> bids (fst (step_reg pf mb ma e s))
         \<or> i \<in> asks s \<and> i \<notin> asks (fst (step_reg pf mb ma e s))"
  shows "completes e i"
proof (cases e)
  case (OrderBookUpdate nb na instr sq ap av bp bv)
  then show ?thesis
    using assms on_order_book_update_message_reg_sets [of s pf nb na instr sq ap av bp bv]
    by auto
next
  case (OrderFilled now j p v)
  then show ?thesis using assms by (simp add: on_order_filled_message_frame)
next
  case (OrderStatus j fv rv fees)
  then show ?thesis using assms status_removes [of i s j fv rv fees]
    by (auto simp: completes_def)
next
  case (ErrorMessage j)
  then show ?thesis using assms error_removes [of i s j] by (auto simp: completes_def)
next
  case (CheckHedgeTimer now)
  then show ?thesis using assms check_hedge_sets [of mb ma now s]
    by (simp add: case_prod_beta)
qed (use assms in simp_all)

text \<open>
  C10. In every reachable state of either variant every id in the bid queue is in the bid set
  and every id in the ask queue is in the ask set. The converse fails: some reachable state
  has an id in the bid set that is not in the bid queue. A quoting cycle that finds a queue
  of four ids removes the oldest id from the queue and leaves it in the side's set, so that a
  later fill for it still moves the position as a fill of that side. An id that a callback
  removes from a set is the id of that callback, which is a status with remaining volume 0
  or an error.
\<close>

theorem queue_within_set:
  "(reachable_vol minimum_bid maximum_ask v
      \<longrightarrow> set (bidq v) \<subseteq> bids v \<and> set (askq v) \<subseteq> asks v
        \<and> (quoting_cycle_vol instr ask_prices bid_prices
             \<longrightarrow> evicted_stays v
                   (fst (on_order_book_update_message_vol now_bid now_ask instr sq
                          ask_prices ask_volumes bid_prices bid_volumes v)))
        \<and> (i \<in> bids v \<and> i \<notin> bids (fst (step_vol minimum_bid maximum_ask e v))
             \<or> i \<in> asks v \<and> i \<notin> asks (fst (step_vol minimum_bid maximum_ask e v))
             \<longrightarrow> completes e i))
   \<and> (reachable_reg polyfit minimum_bid maximum_ask r
      \<longrightarrow> set (bidq r) \<subseteq> bids r \<and> set (askq r) \<subseteq> asks r
        \<and> (quoting_cycle_reg instr ask_prices bid_prices r
             \<longrightarrow> evicted_stays r
                   (fst (on_order_book_update_message_reg polyfit now_bid now_ask instr sq
                          ask_prices ask_volumes bid_prices bid_volumes r)))
        \<and> (i \<in> bids r \<and> i \<notin> bids (fst (step_reg polyfit minimum_bid maximum_ask e r))
             \<or> i \<in> asks r \<and> i \<notin> asks (fst (step_reg polyfit minimum_bid maximum_ask e r))
             \<longrightarrow> completes e i))
   \<and> (\<exists>w. reachable_vol minimum_bid maximum_ask w \<and> \<not> bids w \<subseteq> set (bidq w))"
proof -
  have vol: "set (bidq v) \<subseteq> bids v \<and> set (askq v) \<subseteq> asks v
        \<and> (quoting_cycle_vol instr ask_prices bid_prices
             \<longrightarrow> evicted_stays v
                   (fst (on_order_book_update_message_vol now_bid now_ask instr sq
                          ask_prices ask_volumes bid_prices bid_volumes v)))
        \<and> (i \<in> bids v \<and> i \<notin> bids (fst (step_vol minimum_bid maximum_ask e v))
             \<or> i \<in> asks v \<and> i \<notin> asks (fst (step_vol minimum_bid maximum_ask e v))
             \<longrightarrow> completes e i)"
    if "reachable_vol minimum_bid maximum_ask v"
  proof -
    have inv: "tracker_inv v" "timer_inv v" using reachable_vol_inv [OF that] by simp_all
    show ?thesis
      using inv(1) vol_cycle_evicted_stays [OF _ inv] step_vol_leaves [of i v minimum_bid maximum_ask e]
      by (simp add: tracker_inv_def)
  qed
  have reg: "set (bidq r) \<subseteq> bids r \<and> set (askq r) \<subseteq> asks r
        \<and> (quoting_cycle_reg instr ask_prices bid_prices r
             \<longrightarrow> evicted_stays r
                   (fst (on_order_book_update_message_reg polyfit now_bid now_ask instr sq
                          ask_prices ask_volumes bid_prices bid_volumes r)))
        \<and> (i \<in> bids r \<and> i \<notin> bids (fst (step_reg polyfit minimum_bid maximum_ask e r))
             \<or> i \<in> asks r \<and> i \<notin> asks (fst (step_reg polyfit minimum_bid maximum_ask e r))
             \<longrightarrow> completes e i)"
    if "reachable_reg polyfit minimum_bid maximum_ask r"
  proof -
    have inv: "tracker_inv r" "timer_inv r" using reachable_reg_inv [OF that] by simp_all
    show ?thesis
      using inv(1) reg_cycle_evicted_stays [OF _ inv]
        step_reg_leaves [of i r polyfit minimum_bid maximum_ask e]
      by (simp add: tracker_inv_def)
  qed
  have "reachable_vol minimum_bid maximum_ask after_eviction"
    using reachable_vol_run [OF reachable_vol.vol_init, of minimum_bid maximum_ask eviction_trace]
    by (simp only: eviction_trace_run)
  moreover have "\<not> bids after_eviction \<subseteq> set (bidq after_eviction)"
    by (simp add: after_eviction_def)
  ultimately have ex: "\<exists>w. reachable_vol minimum_bid maximum_ask w \<and> \<not> bids w \<subseteq> set (bidq w)"
    by blast
  show ?thesis using vol reg ex by blast
qed

theorem queue_within_set_witness:
  "reachable_vol 1 2147483647 full_queues
   \<and> reachable_reg lstsq_slope 1 2147483647 (fst init_reg)
   \<and> quoting_cycle_vol FUTURE [10100] [9900]
   \<and> fst (on_order_book_update_message_vol 0 0 FUTURE 1 [10100] [5] [9900] [5] full_queues)
       = after_eviction
   \<and> set (bidq after_eviction) \<subseteq> bids after_eviction
   \<and> 1 \<in> bids after_eviction \<and> 1 \<notin> set (bidq after_eviction)
   \<and> evicted_stays full_queues after_eviction
   \<and> position (on_order_filled_message 3 1 9900 10 after_eviction) = 10
   \<and> 1 \<notin> bids (fst (step_vol 1 2147483647 (OrderStatus 1 0 0 0) after_eviction))
   \<and> completes (OrderStatus 1 0 0 0) 1"
proof -
  have rf: "reachable_vol 1 2147483647 full_queues"
    using reachable_vol_run [OF reachable_vol.vol_init, of 1 2147483647
        "[book_update, book_update, book_update, book_update]"]
    by (simp only: eviction_trace_run)
  have ra: "reachable_vol 1 2147483647 after_eviction"
    using reachable_vol_run [OF reachable_vol.vol_init, of 1 2147483647 eviction_trace]
    by (simp only: eviction_trace_run)
  have rr: "reachable_reg lstsq_slope 1 2147483647 (fst init_reg)"
    by (rule reachable_reg.reg_init)
  have qc: "quoting_cycle_vol FUTURE [10100] [9900]"
    by (simp add: quoting_cycle_vol_def)
  have st: "fst (on_order_book_update_message_vol 0 0 FUTURE 1 [10100] [5] [9900] [5] full_queues)
       = after_eviction"
    using step_eviction [of 1 2147483647] by (simp add: book_update_def)
  have m: "1 \<in> bids after_eviction \<and> 1 \<notin> set (bidq after_eviction)"
    by (simp add: after_eviction_def)
  have gone: "1 \<notin> bids (fst (step_vol 1 2147483647 (OrderStatus 1 0 0 0) after_eviction))"
    by (simp add: after_eviction_def on_order_status_message_def)
  note a = queue_within_set [where v = full_queues and r = "fst init_reg"
      and minimum_bid = 1 and maximum_ask = 2147483647 and polyfit = lstsq_slope
      and instr = FUTURE and ask_prices = "[10100]" and bid_prices = "[9900]"
      and now_bid = 0 and now_ask = 0 and sq = 1 and ask_volumes = "[5]"
      and bid_volumes = "[5]" and i = 1 and e = "OrderStatus 1 0 0 0"]
  note b = queue_within_set [where v = after_eviction and r = "fst init_reg"
      and minimum_bid = 1 and maximum_ask = 2147483647 and polyfit = lstsq_slope
      and instr = FUTURE and ask_prices = "[10100]" and bid_prices = "[9900]"
      and now_bid = 0 and now_ask = 0 and sq = 1 and ask_volumes = "[5]"
      and bid_volumes = "[5]" and i = 1 and e = "OrderStatus 1 0 0 0"]
  have es: "evicted_stays full_queues after_eviction"
    using a rf qc st by simp
  have sub: "set (bidq after_eviction) \<subseteq> bids after_eviction"
    using b ra by blast
  have cp: "completes (OrderStatus 1 0 0 0) 1"
    using b ra m gone by blast
  have "hd (bidq full_queues) = 1" "4 \<le> length (bidq full_queues)"
    by (simp_all add: full_queues_def)
  then have pos: "position (on_order_filled_message 3 1 9900 10 after_eviction) = 10"
    using es unfolding evicted_stays_def by (simp add: after_eviction_def)
  show ?thesis
    using rf rr qc st sub m es pos gone cp by blast
qed

section \<open>Malformed market data and the cancel path\<close>

text \<open>
  C3 fails in the regression variant. An update for the ETF with best bid 0 and best ask 100
  is not skipped: the early return needs both prices to be non-positive, so the mid price
  50 is appended to the ETF window. The volatility variant skips every update with a
  non-positive best price.
\<close>

theorem regression_keeps_one_sided_book:
  "on_order_book_update_message_reg polyfit 0 0 ETF 1 [100] [5] [0] [5] (fst init_reg)
     = ((fst init_reg)\<lparr>etf_prices := [50]\<rparr>, Inr [])
   \<and> (fst init_reg)\<lparr>etf_prices := [50]\<rparr> \<noteq> fst init_reg"
proof -
  have "etf_prices ((fst init_reg)\<lparr>etf_prices := [50]\<rparr>) \<noteq> etf_prices (fst init_reg)"
    by (simp add: init_reg_def)
  then have "(fst init_reg)\<lparr>etf_prices := [50]\<rparr> \<noteq> fst init_reg"
    by metis
  then show ?thesis
    by (simp add: on_order_book_update_message_reg_def init_reg_def deque_append_def
          calculate_hedge_ratio_def AVG_WINDOW_reg_def HEDGE_RATIO_LOOKBACK_def Let_def)
qed

lemma volatility_skips_malformed:
  assumes "bid_prices \<noteq> []" "ask_prices \<noteq> []" "hd bid_prices \<le> 0 \<or> hd ask_prices \<le> 0"
  shows "on_order_book_update_message_vol now_bid now_ask instr sq ask_prices ask_volumes
           bid_prices bid_volumes s = (s, Inr [])"
  using assms
  by (cases bid_prices; cases ask_prices)
     (auto simp: on_order_book_update_message_vol_def)

text \<open>
  C5 fails. The callback scheduled ten time units after a send calls \<^verbatim>\<open>cancel_order\<close>,
  whose body calls \<^verbatim>\<open>cancel_order\<close> again and never the gateway: a call either is rejected by
  the limiter and returns, or exhausts the stack. With the clock standing at 10 and the deque
  empty, the call for order 1 nests 47 times, fills the deque of the cancel limiter and emits
  nothing.
\<close>

lemma cancel_order_never_cancels:
  "snd (cancel_order depth clock k i s) = Inr [] \<or> snd (cancel_order depth clock k i s) = Inl RecursionError"
  by (induction depth arbitrary: k s) (auto simp: throttler_def)

theorem cancel_order_sends_nothing:
  "step_vol minimum_bid maximum_ask (CancelTimer 100 (\<lambda>k. 10) 1) quoted_once
     = (quoted_once\<lparr>cancel_calls := replicate 47 10\<rparr>, Inr [])"
  by (simp add: eval_nat_numeral quoted_once_def throttler_def throttled_iff deque_append_def
        max_calls_def)

section \<open>The regression scenario\<close>

lemma scenario_slope:
  "lstsq_slope (map real_of_int etf_window) (map real_of_int fut_window) = 2"
  by (simp add: lstsq_slope_def etf_window_def fut_window_def Let_def)



text \<open>The spread series for a hedge ratio \<open>h\<close>: the ETF prices times \<open>1 - 2 h\<close>.\<close>

lemma series_scaled:
  "spread_series h etf_window fut_window = map (\<lambda>e. (1 - 2 * h) * e)
     [100, 101, 102, 103, 104, 105, 106, 107, 108, 109]"
  by (simp add: spread_series_def etf_window_def fut_window_def algebra_simps)

lemma series_mean: "np_mean (spread_series h etf_window fut_window) = (1 - 2 * h) * (209 / 2)"
  unfolding series_scaled by (simp add: np_mean_def field_simps)

lemma series_variance:
  "np_mean (map (\<lambda>x. (x - np_mean (spread_series h etf_window fut_window))\<^sup>2)
      (spread_series h etf_window fut_window)) = (1 - 2 * h)\<^sup>2 * (33 / 4)"
  unfolding series_mean unfolding series_scaled
  by (simp add: np_mean_def power2_eq_square field_simps)

lemma series_std:
  "np_std (spread_series h etf_window fut_window) = \<bar>1 - 2 * h\<bar> * sqrt (33 / 4)"
proof -
  have "sqrt ((1 - 2 * h)\<^sup>2 * (33 / 4)) = sqrt ((1 - 2 * h)\<^sup>2) * sqrt (33 / 4)"
    by (rule real_sqrt_mult)
  also have "sqrt ((1 - 2 * h)\<^sup>2) = \<bar>1 - 2 * h\<bar>" by (rule real_sqrt_abs)
  finally show ?thesis unfolding np_std_def series_variance .
qed

lemma sqrt_33_4: "sqrt (33 / 4) < 3"
proof -
  have "sqrt (33 / 4) < sqrt (3\<^sup>2)"
    by (rule real_sqrt_less_mono) (simp add: power2_eq_square)
  then show ?thesis by simp
qed

lemma series_last: "last (spread_series h etf_window fut_window) = (1 - 2 * h) * 109"
  unfolding series_scaled by simp

lemma series_cheap:
  assumes "\<bar>h - 2\<bar> \<le> 1 / 1000"
  shows "last (spread_series h etf_window fut_window)
           < np_mean (spread_series h etf_window fut_window)
             - np_std (spread_series h etf_window fut_window)"
    and "\<not> last (spread_series h etf_window fut_window)
           > np_mean (spread_series h etf_window fut_window)
             + np_std (spread_series h etf_window fut_window)"
    and "\<forall>x \<in> set (spread_series h etf_window fut_window). x < - 299"
proof -
  define k where "k = 2 * h - 1"
  have "- (1 / 1000) \<le> h - 2" "h - 2 \<le> 1 / 1000" using assms by linarith+
  then have k: "2998 / 1000 \<le> k" "k \<le> 3002 / 1000" unfolding k_def by linarith+
  have abs: "1 - 2 * h = - k" "\<bar>- k\<bar> = k" using k by (simp_all add: k_def)
  have s: "0 \<le> sqrt (33 / 4)" by simp
  have "k * sqrt (33 / 4) < k * 3"
    using sqrt_33_4 k by (intro mult_strict_left_mono) auto
  then show "last (spread_series h etf_window fut_window)
           < np_mean (spread_series h etf_window fut_window)
             - np_std (spread_series h etf_window fut_window)"
    unfolding series_last series_mean series_std abs using k by linarith
  have "0 \<le> k * sqrt (33 / 4)" using k s by (intro mult_nonneg_nonneg) auto
  then show "\<not> last (spread_series h etf_window fut_window)
           > np_mean (spread_series h etf_window fut_window)
             + np_std (spread_series h etf_window fut_window)"
    unfolding series_last series_mean series_std abs using k by linarith
  show "\<forall>x \<in> set (spread_series h etf_window fut_window). x < - 299"
    unfolding series_scaled abs using k by auto
qed


lemma quote_prices_reg_cheap:
  assumes "sp \<noteq> []" "last sp < np_mean sp - np_std sp" "\<not> last sp > np_mean sp + np_std sp"
  shows "quote_prices_reg sp mid_price =
           (adjust_price (real_of_int (adjust_price
              (real_of_int mid_price * (1 - CONSERVATIVE_SPREAD)))),
            adjust_price (real_of_int (adjust_price
              (real_of_int mid_price * (1 + NORMAL_SPREAD)))))"
  using assms by (simp add: quote_prices_reg_def Let_def)

lemma scenario_quotes:
  assumes "\<bar>h - 2\<bar> \<le> 1 / 1000"
  shows "quote_prices_reg (spread_series h etf_window fut_window) 218 = (200, 200)"
proof -
  have ne: "spread_series h etf_window fut_window \<noteq> []"
    by (simp add: series_scaled)
  show ?thesis
    unfolding quote_prices_reg_cheap [OF ne series_cheap(1,2) [OF assms]]
    by (simp add: adjust_price_def TICK_SIZE_IN_CENTS_def CONSERVATIVE_SPREAD_def
          NORMAL_SPREAD_def)
qed

lemma scenario_run:
  assumes "\<bar>polyfit (map real_of_int etf_window) (map real_of_int fut_window) - 2\<bar> \<le> 1 / 1000"
  shows "on_order_book_update_message_reg polyfit 0 0 FUTURE 21 [219] [5] [217] [5]
           regression_before
         = (regression_after,
            Inr [SendInsertOrder 1 BUY 200 10 GOOD_FOR_DAY,
                 SendInsertOrder 2 SELL 200 10 GOOD_FOR_DAY])"
proof -
  define h where "h = polyfit (map real_of_int etf_window) (map real_of_int fut_window)"
  have w: "deque_append AVG_WINDOW_reg [198, 200, 202, 204, 206, 208, 210, 212, 214, 216] 218
      = fut_window"
    by (simp add: deque_append_def AVG_WINDOW_reg_def fut_window_def)
  have len: "length etf_window = 10" "length fut_window = 10"
    by (simp_all add: etf_window_def fut_window_def)
  have hr: "calculate_hedge_ratio polyfit
      (regression_before\<lparr>fut_prices := fut_window\<rparr>) = Some h"
    by (simp add: calculate_hedge_ratio_def regression_before_def HEDGE_RATIO_LOOKBACK_def len
          h_def)
  have q: "quote_prices_reg (spread_series h etf_window fut_window) 218 = (200, 200)"
    using assms unfolding h_def by (rule scenario_quotes)
  have sub: "submit_quotes send_throttled_reg 0 0 200 200
      (regression_before\<lparr>fut_prices := fut_window\<rparr>)
      = (regression_after,
         [SendInsertOrder 1 BUY 200 10 GOOD_FOR_DAY, SendInsertOrder 2 SELL 200 10 GOOD_FOR_DAY])"
    by (simp add: submit_quotes_def evict_oldest_bid_def evict_oldest_ask_def submit_bid_def
          submit_ask_def send_throttled_reg_def throttler_def throttled_iff deque_append_def
          send_throttled_body_reg_def regression_before_def regression_after_def init_reg_def
          LOT_SIZE_def POSITION_LIMIT_def max_calls_def Let_def)
  have e: "etf_prices (regression_before\<lparr>fut_prices := fut_window\<rparr>) = etf_window"
    "fut_prices (regression_before\<lparr>fut_prices := fut_window\<rparr>) = fut_window"
    "fut_prices regression_before = [198, 200, 202, 204, 206, 208, 210, 212, 214, 216]"
    by (simp_all add: regression_before_def)
  show ?thesis
    unfolding on_order_book_update_message_reg_def
    by (simp add: e w hr q sub len Let_def)
qed





section \<open>Prices passed to the gateway\<close>

lemma adjust_price_dvd: "100 dvd adjust_price x"
  by (simp add: adjust_price_def TICK_SIZE_IN_CENTS_def)

lemma adjust_price_rounds_down:
  "real_of_int (adjust_price x) \<le> x" "x < real_of_int (adjust_price x) + 100"
proof -
  define k where "k = \<lfloor>x / 100\<rfloor>"
  have "real_of_int k \<le> x / 100" "x / 100 < real_of_int k + 1"
    unfolding k_def by linarith+
  then have "real_of_int k * 100 \<le> x" "x < real_of_int k * 100 + 100"
    by (simp_all add: field_simps)
  then show "real_of_int (adjust_price x) \<le> x" "x < real_of_int (adjust_price x) + 100"
    by (simp_all add: adjust_price_def TICK_SIZE_IN_CENTS_def k_def)
qed

lemma adjust_price_frac: "real_of_int (adjust_price x) = x - 100 * frac (x / 100)"
  by (simp add: adjust_price_def TICK_SIZE_IN_CENTS_def frac_def algebra_simps)

lemma adjust_price_int: "adjust_price (real_of_int n) = n - n mod 100"
proof -
  have "\<lfloor>real_of_int n / 100\<rfloor> = n div 100"
    using floor_divide_of_int_eq [of n 100, where ?'a = real] by simp
  then show ?thesis
    using mult_div_mod_eq [of 100 n]
    by (simp add: adjust_price_def TICK_SIZE_IN_CENTS_def algebra_simps)
qed

lemma adjust_price_nonneg: "0 \<le> x \<Longrightarrow> 0 \<le> adjust_price x"
  by (simp add: adjust_price_def TICK_SIZE_IN_CENTS_def)

lemma quote_prices_vol_dvd:
  "100 dvd fst (quote_prices_vol w m p)" "100 dvd snd (quote_prices_vol w m p)"
  by (simp_all add: quote_prices_vol_def Let_def adjust_price_dvd split: if_splits)

lemma quote_prices_reg_dvd:
  "100 dvd fst (quote_prices_reg sp m)" "100 dvd snd (quote_prices_reg sp m)"
  by (simp_all add: quote_prices_reg_def Let_def adjust_price_dvd split: if_splits)

lemma quote_prices_reg_nonneg:
  assumes "0 \<le> m"
  shows "0 \<le> fst (quote_prices_reg sp m)" "0 \<le> snd (quote_prices_reg sp m)"
proof -
  have "0 \<le> real_of_int m * (1 + CONSERVATIVE_SPREAD)" "0 \<le> real_of_int m * (1 - NORMAL_SPREAD)"
    "0 \<le> real_of_int m * (1 + NORMAL_SPREAD)" "0 \<le> real_of_int m * (1 - CONSERVATIVE_SPREAD)"
    using assms by (simp_all add: CONSERVATIVE_SPREAD_def NORMAL_SPREAD_def)
  then have "0 \<le> adjust_price (real_of_int (adjust_price (real_of_int m * (1 + CONSERVATIVE_SPREAD))))"
    "0 \<le> adjust_price (real_of_int (adjust_price (real_of_int m * (1 - NORMAL_SPREAD))))"
    "0 \<le> adjust_price (real_of_int (adjust_price (real_of_int m * (1 + NORMAL_SPREAD))))"
    "0 \<le> adjust_price (real_of_int (adjust_price (real_of_int m * (1 - CONSERVATIVE_SPREAD))))"
    by (simp_all add: adjust_price_nonneg)
  then show "0 \<le> fst (quote_prices_reg sp m)" "0 \<le> snd (quote_prices_reg sp m)"
    by (simp_all add: quote_prices_reg_def Let_def)
qed

text \<open>The prices in what a send emits, and in what the tail of a quoting cycle emits.\<close>

lemma send_throttled_prices:
  "a \<in> set (snd (send_throttled_vol now i sd price v s)) \<Longrightarrow> gateway_price a = Some p
     \<Longrightarrow> p = price"
  "a \<in> set (snd (send_throttled_reg now i sd price v s)) \<Longrightarrow> gateway_price a = Some p
     \<Longrightarrow> p = price"
  by (auto simp: send_throttled_vol_def send_throttled_reg_def throttler_def
        send_throttled_body_vol_def send_throttled_body_reg_def split: if_splits)

lemma submit_quotes_prices:
  assumes send: "\<And>now i sd price v t a p.
      a \<in> set (snd (send now i sd price v t)) \<Longrightarrow> gateway_price a = Some p \<Longrightarrow> p = price"
    and a: "a \<in> set (snd (submit_quotes send nb na bp ap s))" "gateway_price a = Some p"
  shows "p = bp \<or> p = ap"
proof -
  have "a \<in> set (snd (evict_oldest_bid s))
      \<or> a \<in> set (snd (evict_oldest_ask (fst (evict_oldest_bid s))))
      \<or> (\<exists>rl t. a \<in> set (snd (submit_bid send nb bp rl t)))
      \<or> (\<exists>rs t. a \<in> set (snd (submit_ask send na ap rs t)))"
    using a(1) unfolding submit_quotes_def Let_def case_prod_beta by auto
  then show ?thesis
  proof (elim disjE exE)
    assume "a \<in> set (snd (evict_oldest_bid s))"
    then show ?thesis using a(2) by (auto simp: evict_oldest_bid_def split: if_splits)
  next
    assume "a \<in> set (snd (evict_oldest_ask (fst (evict_oldest_bid s))))"
    then show ?thesis using a(2) by (auto simp: evict_oldest_ask_def split: if_splits)
  next
    fix rl t assume "a \<in> set (snd (submit_bid send nb bp rl t))"
    then show ?thesis using a(2) send by (auto simp: submit_bid_def split: if_splits)
  next
    fix rs t assume "a \<in> set (snd (submit_ask send na ap rs t))"
    then show ?thesis using a(2) send by (auto simp: submit_ask_def split: if_splits)
  qed
qed


lemma on_order_book_update_message_vol_prices:
  assumes "snd (on_order_book_update_message_vol nb na instr sq ap av bp bv s) = Inr acts"
    and "a \<in> set acts" "gateway_price a = Some p"
  shows "0 < hd bp \<and> 0 < hd ap
    \<and> (p = fst (quote_prices_vol
                  (deque_append AVG_WINDOW_vol (recent_prices s) ((hd bp + hd ap) div 2))
                  ((hd bp + hd ap) div 2) (position s))
       \<or> p = snd (quote_prices_vol
                  (deque_append AVG_WINDOW_vol (recent_prices s) ((hd bp + hd ap) div 2))
                  ((hd bp + hd ap) div 2) (position s)))"
proof (cases bp; cases ap)
  fix b0 bs a0 as assume l: "bp = b0 # bs" "ap = a0 # as"
  let ?s1 = "s\<lparr>recent_prices :=
                 deque_append AVG_WINDOW_vol (recent_prices s) ((b0 + a0) div 2)\<rparr>"
  let ?q = "quote_prices_vol (recent_prices ?s1) ((b0 + a0) div 2) (position ?s1)"
  have "acts = [] \<or> (0 < b0 \<and> 0 < a0
      \<and> acts = snd (submit_quotes send_throttled_vol nb na (fst ?q) (snd ?q) ?s1))"
    using assms(1) unfolding on_order_book_update_message_vol_def l
    by (auto simp: case_prod_beta Let_def split: if_splits)
  then show ?thesis
  proof
    assume "acts = []" then show ?thesis using assms(2) by simp
  next
    assume r: "0 < b0 \<and> 0 < a0
      \<and> acts = snd (submit_quotes send_throttled_vol nb na (fst ?q) (snd ?q) ?s1)"
    have "p = fst ?q \<or> p = snd ?q"
      using submit_quotes_prices [where send = send_throttled_vol and a = a and p = p
          and nb = nb and na = na and s = ?s1 and bp = "fst ?q" and ap = "snd ?q"]
        send_throttled_prices(1) assms(2,3) r
      by blast
    then show ?thesis using r unfolding l by simp
  qed
qed (use assms in \<open>auto simp: on_order_book_update_message_vol_def split: if_splits\<close>)

lemma on_order_book_update_message_reg_prices:
  assumes "snd (on_order_book_update_message_reg polyfit nb na instr sq ap av bp bv s) = Inr acts"
    and "a \<in> set acts" "gateway_price a = Some p"
  shows "\<exists>sp. p = fst (quote_prices_reg sp ((hd bp + hd ap) div 2))
            \<or> p = snd (quote_prices_reg sp ((hd bp + hd ap) div 2))"
proof (cases bp; cases ap)
  fix b0 bs a0 as assume l: "bp = b0 # bs" "ap = a0 # as"
  let ?s1 = "s\<lparr>fut_prices :=
                 deque_append AVG_WINDOW_reg (fut_prices s) ((b0 + a0) div 2)\<rparr>"
  let ?q = "\<lambda>h. quote_prices_reg (spread_series h (etf_prices ?s1) (fut_prices ?s1))
                 ((b0 + a0) div 2)"
  have "acts = []
      \<or> (\<exists>h. acts = snd (submit_quotes send_throttled_reg nb na (fst (?q h)) (snd (?q h)) ?s1))"
    using assms(1) unfolding on_order_book_update_message_reg_def l
    by (auto simp: case_prod_beta Let_def split: if_splits option.splits)
  then show ?thesis
  proof
    assume "acts = []" then show ?thesis using assms(2) by simp
  next
    assume "\<exists>h. acts = snd (submit_quotes send_throttled_reg nb na (fst (?q h)) (snd (?q h)) ?s1)"
    then obtain h where
      acts: "acts = snd (submit_quotes send_throttled_reg nb na (fst (?q h)) (snd (?q h)) ?s1)"
      by blast
    have "p = fst (?q h) \<or> p = snd (?q h)"
      using submit_quotes_prices [where send = send_throttled_reg and a = a and p = p
          and nb = nb and na = na and s = ?s1 and bp = "fst (?q h)" and ap = "snd (?q h)"]
        send_throttled_prices(2) assms(2,3) acts
      by blast
    then show ?thesis unfolding l list.sel by blast
  qed
qed (use assms in \<open>auto simp: on_order_book_update_message_reg_def split: list.splits\<close>)

lemma check_hedge_prices:
  assumes "a \<in> set (snd (check_hedge mb ma now s))" "gateway_price a = Some p"
  shows "p = MAX_ASK_NEAREST_TICK ma \<or> p = MIN_BID_NEAREST_TICK mb"
  using assms by (auto simp: check_hedge_def split: option.splits if_splits)

lemma nearest_tick_dvd: "100 dvd MAX_ASK_NEAREST_TICK ma" "100 dvd MIN_BID_NEAREST_TICK mb"
  by (simp_all add: MAX_ASK_NEAREST_TICK_def MIN_BID_NEAREST_TICK_def TICK_SIZE_IN_CENTS_def)

lemma nearest_tick_nonneg:
  "0 \<le> ma \<Longrightarrow> 0 \<le> MAX_ASK_NEAREST_TICK ma" "0 \<le> mb \<Longrightarrow> 0 < MIN_BID_NEAREST_TICK mb"
proof -
  assume "0 \<le> ma"
  then have "0 \<le> ma div 100" by (simp add: pos_imp_zdiv_nonneg_iff)
  then show "0 \<le> MAX_ASK_NEAREST_TICK ma"
    by (simp add: MAX_ASK_NEAREST_TICK_def TICK_SIZE_IN_CENTS_def)
next
  assume "0 \<le> mb"
  then have "1 \<le> (mb + 100) div 100" by (simp add: pos_imp_zdiv_pos_iff)
  then show "0 < MIN_BID_NEAREST_TICK mb"
    by (simp add: MIN_BID_NEAREST_TICK_def TICK_SIZE_IN_CENTS_def)
qed

lemma step_vol_prices:
  assumes "snd (step_vol mb ma e s) = Inr acts" "a \<in> set acts" "gateway_price a = Some p"
  shows "100 dvd p"
proof (cases e)
  case (OrderBookUpdate nb na instr sq ap av bp bv)
  then have "snd (on_order_book_update_message_vol nb na instr sq ap av bp bv s) = Inr acts"
    using assms(1) by simp
  from on_order_book_update_message_vol_prices [OF this assms(2,3)]
  show ?thesis using quote_prices_vol_dvd by metis
next
  case (CheckHedgeTimer now)
  then have "acts = snd (check_hedge mb ma now s)"
    using assms(1) by (simp add: case_prod_beta)
  then show ?thesis
    using check_hedge_prices [where a = a and p = p and mb = mb and ma = ma
        and now = now and s = s] assms(2,3) nearest_tick_dvd
    by auto
next
  case (CancelTimer depth clock i)
  then have "acts = []"
    using assms(1) cancel_order_never_cancels [where depth = depth and clock = clock
        and k = 0 and i = i and s = s]
    by auto
  then show ?thesis using assms(2) by simp
qed (use assms in auto)

lemma step_reg_prices:
  assumes "snd (step_reg polyfit mb ma e s) = Inr acts" "a \<in> set acts"
    "gateway_price a = Some p"
  shows "100 dvd p"
proof (cases e)
  case (OrderBookUpdate nb na instr sq ap av bp bv)
  then have "snd (on_order_book_update_message_reg polyfit nb na instr sq ap av bp bv s)
      = Inr acts"
    using assms(1) by simp
  from on_order_book_update_message_reg_prices [OF this assms(2,3)]
  show ?thesis using quote_prices_reg_dvd by blast
next
  case (CheckHedgeTimer now)
  then have "acts = snd (check_hedge mb ma now s)"
    using assms(1) by (simp add: case_prod_beta)
  then show ?thesis
    using check_hedge_prices [where a = a and p = p and mb = mb and ma = ma
        and now = now and s = s] assms(2,3) nearest_tick_dvd
    by auto
qed (use assms in auto)

lemma reg_quotes_nonneg:
  assumes run: "snd (on_order_book_update_message_reg polyfit nb na instr sq ap av bp bv s)
      = Inr acts"
    and nonneg: "\<forall>b \<in> set bp. 0 \<le> b" "\<forall>b \<in> set ap. 0 \<le> b"
    and a: "a \<in> set acts" "gateway_price a = Some p"
  shows "0 \<le> p"
proof -
  have ne: "bp \<noteq> []" "ap \<noteq> []"
    using run by (auto simp: on_order_book_update_message_reg_def split: list.splits)
  then have "0 \<le> hd bp" "0 \<le> hd ap"
    using nonneg by simp_all
  then have "0 \<le> (hd bp + hd ap) div 2"
    by (simp add: pos_imp_zdiv_nonneg_iff)
  then show ?thesis
    using on_order_book_update_message_reg_prices [OF run a] quote_prices_reg_nonneg
    by blast
qed


lemma np_std_nonneg: "0 \<le> np_std xs"
proof -
  have "0 \<le> sum_list (map (\<lambda>x. (x - np_mean xs)\<^sup>2) xs)"
    by (rule sum_list_nonneg) auto
  then show ?thesis
    by (simp add: np_std_def np_mean_def [of "map f xs" for f])
qed

lemma calculate_position_factor_bounds:
  assumes "\<bar>pos\<bar> \<le> POSITION_LIMIT"
  shows "1 \<le> calculate_position_factor pos" "calculate_position_factor pos \<le> 2"
proof -
  define x where "x = real_of_int \<bar>pos\<bar> / real_of_int POSITION_LIMIT"
  have x: "0 \<le> x" "x \<le> 1"
    using assms by (simp_all add: x_def POSITION_LIMIT_def)
  have "x powr SENSITIVITY_FACTOR \<le> 1 powr SENSITIVITY_FACTOR"
    using x by (intro powr_mono2) (simp_all add: SENSITIVITY_FACTOR_def)
  then have "0 \<le> x powr SENSITIVITY_FACTOR" "x powr SENSITIVITY_FACTOR \<le> 1"
    by simp_all
  then show "1 \<le> calculate_position_factor pos" "calculate_position_factor pos \<le> 2"
    unfolding x_def by (simp_all add: calculate_position_factor_def MAX_POSITION_FACTOR_def)
qed

lemma rebalance_nonneg:
  assumes "0 \<le> A" "0 \<le> B"
  shows "0 \<le> adjust_price (real_of_int A - real_of_int (A - B) * (1 / 2))"
    "0 \<le> adjust_price (real_of_int B + real_of_int (A - B) * (1 / 2))"
proof -
  have "real_of_int A - real_of_int (A - B) * (1 / 2) = (real_of_int A + real_of_int B) / 2"
    "real_of_int B + real_of_int (A - B) * (1 / 2) = (real_of_int A + real_of_int B) / 2"
    by (simp_all add: field_simps)
  moreover have "0 \<le> (real_of_int A + real_of_int B) / 2"
    using assms by simp
  ultimately show "0 \<le> adjust_price (real_of_int A - real_of_int (A - B) * (1 / 2))"
    "0 \<le> adjust_price (real_of_int B + real_of_int (A - B) * (1 / 2))"
    by (simp_all only: adjust_price_nonneg)
qed

lemma quote_prices_vol_nonneg:
  assumes "0 < m" "\<bar>pos\<bar> \<le> POSITION_LIMIT" "np_std (map real_of_int w) \<le> real_of_int m / 2"
  shows "0 \<le> fst (quote_prices_vol w m pos)" "0 \<le> snd (quote_prices_vol w m pos)"
proof -
  define sp where "sp = 1 / 1000 + (TAKER_FEE - MAKER_FEE)
      + (1 / 2) * (np_std (map real_of_int w) / real_of_int m)"
  define pf where "pf = calculate_position_factor pos"
  have r: "0 \<le> np_std (map real_of_int w) / real_of_int m"
      "np_std (map real_of_int w) / real_of_int m \<le> 1 / 2"
    using assms(1,3) np_std_nonneg [of "map real_of_int w"] by (simp_all add: field_simps)
  have sp: "0 \<le> sp" "sp \<le> 2511 / 10000"
    using r by (simp_all add: sp_def TAKER_FEE_def MAKER_FEE_def)
  have pf: "1 \<le> pf" "pf \<le> 2"
    unfolding pf_def using calculate_position_factor_bounds [OF assms(2)] by simp_all
  have "sp * pf \<le> (2511 / 10000) * 2"
    using sp pf by (intro mult_mono) simp_all
  then have spf: "0 \<le> sp * pf" "sp * pf \<le> 1"
    using sp pf by simp_all
  have m: "0 \<le> real_of_int m" using assms(1) by simp
  have "0 \<le> real_of_int m * (1 - sp * pf)" "0 \<le> real_of_int m * (1 + sp)"
    "0 \<le> real_of_int m * (1 - sp)" "0 \<le> real_of_int m * (1 + sp * pf)"
    using m sp spf by (simp_all add: mult_nonneg_nonneg)
  then have nn: "0 \<le> adjust_price (real_of_int m * (1 - sp * pf))"
    "0 \<le> adjust_price (real_of_int m * (1 + sp))"
    "0 \<le> adjust_price (real_of_int m * (1 - sp))"
    "0 \<le> adjust_price (real_of_int m * (1 + sp * pf))"
    by (simp_all only: adjust_price_nonneg)
  define q where "q = (if pos > ORDER_THRESHOLD then
               (adjust_price (real_of_int m * (1 - sp * pf)),
                adjust_price (real_of_int m * (1 + sp)))
             else if pos < - ORDER_THRESHOLD then
               (adjust_price (real_of_int m * (1 - sp)),
                adjust_price (real_of_int m * (1 + sp * pf)))
             else
               (adjust_price (real_of_int m * (1 - sp)),
                adjust_price (real_of_int m * (1 + sp))))"
  have q: "0 \<le> fst q" "0 \<le> snd q"
    using nn by (simp_all add: q_def)
  have eq: "quote_prices_vol w m pos =
      (if pos \<ge> REBALANCING_THRESHOLD then
           (fst q, adjust_price (real_of_int (snd q) - real_of_int (snd q - fst q) * (1 / 2)))
       else if pos \<le> - REBALANCING_THRESHOLD then
           (adjust_price (real_of_int (fst q) + real_of_int (snd q - fst q) * (1 / 2)), snd q)
       else (fst q, snd q))"
    unfolding quote_prices_vol_def Let_def q_def sp_def pf_def case_prod_beta by simp
  show "0 \<le> fst (quote_prices_vol w m pos)" "0 \<le> snd (quote_prices_vol w m pos)"
    unfolding eq using q rebalance_nonneg [of "snd q" "fst q"] by simp_all
qed

lemma np_std_collapse: "np_std (map real_of_int [100000, 200]) = 49900"
proof -
  have "np_std (map real_of_int [100000, 200]) = sqrt 2490010000"
    by (simp add: np_std_def np_mean_def)
  also have "\<dots> = 49900"
    by (rule real_sqrt_unique) simp_all
  finally show ?thesis .
qed

lemma quote_collapse: "quote_prices_vol [100000, 200] 200 0 = (- 24800, 25100)"
  unfolding quote_prices_vol_def np_std_collapse
  by (simp add: const_defs adjust_price_def Let_def)

lemma np_std_single: "np_std (map real_of_int [c]) = 0"
  by (simp add: np_std_def np_mean_def)

lemma quote_high: "quote_prices_vol [100000] 100000 0 = (99800, 100100)"
  unfolding quote_prices_vol_def np_std_single
  by (simp add: const_defs adjust_price_def Let_def)

lemma step_high:
  "step_vol mb ma high_update (fst init_vol) =
     (quoted_high,
      Inr [SendInsertOrder 1 BUY 99800 10 GOOD_FOR_DAY, CallLater 10 (CancelOrderCb 1),
           SendInsertOrder 2 SELL 100100 10 GOOD_FOR_DAY, CallLater 10 (CancelOrderCb 2)])"
  by (simp add: init_vol_def quoted_high_def high_update_def eval_defs quote_high const_defs
        Let_def)

lemma step_collapse:
  "snd (step_vol mb ma collapse_update quoted_high) = Inr collapse_actions"
  by (simp add: quoted_high_def collapse_update_def collapse_actions_def eval_defs
        quote_collapse const_defs Let_def)


lemma vol_quotes_nonneg:
  assumes run: "snd (on_order_book_update_message_vol nb na instr sq (a0 # as) av (b0 # bs) bv s)
      = Inr acts"
    and pos: "\<bar>position s\<bar> \<le> POSITION_LIMIT"
    and vol: "np_std (map real_of_int
                (deque_append AVG_WINDOW_vol (recent_prices s) ((b0 + a0) div 2)))
              \<le> real_of_int ((b0 + a0) div 2) / 2"
    and a: "a \<in> set acts" "gateway_price a = Some p"
  shows "0 \<le> p"
proof -
  note r = on_order_book_update_message_vol_prices [OF run a]
  then have "0 < b0" "0 < a0" by simp_all
  then have m: "0 < (b0 + a0) div 2"
    by (simp add: pos_imp_zdiv_pos_iff)
  show ?thesis
    using r quote_prices_vol_nonneg [OF m pos vol] by auto
qed

lemma reg_quotes_nonneg_cons:
  assumes "snd (on_order_book_update_message_reg polyfit nb na instr sq (a0 # as) av (b0 # bs) bv s)
      = Inr acts"
    and "0 \<le> b0" "0 \<le> a0" and "a \<in> set acts" "gateway_price a = Some p"
  shows "0 \<le> p"
proof -
  have "0 \<le> (b0 + a0) div 2"
    using assms(2,3) by (simp add: pos_imp_zdiv_nonneg_iff)
  then show ?thesis
    using on_order_book_update_message_reg_prices [OF assms(1,4,5)] quote_prices_reg_nonneg
    by auto
qed

lemma quote_low: "quote_prices_vol [218] 218 0 = (200, 200)"
  unfolding quote_prices_vol_def np_std_single
  by (simp add: const_defs adjust_price_def Let_def)

lemma step_low:
  "snd (step_vol mb ma (OrderBookUpdate 0 0 FUTURE 21 [219] [5] [217] [5]) (fst init_vol)) =
     Inr [SendInsertOrder 1 BUY 200 10 GOOD_FOR_DAY, CallLater 10 (CancelOrderCb 1),
          SendInsertOrder 2 SELL 200 10 GOOD_FOR_DAY, CallLater 10 (CancelOrderCb 2)]"
  by (simp add: init_vol_def eval_defs quote_low const_defs Let_def)

lemma hedge_prices_nonneg:
  assumes "0 \<le> mb" "0 \<le> ma" "a \<in> set (snd (check_hedge mb ma now s))"
    "gateway_price a = Some p"
  shows "0 \<le> p"
  using check_hedge_prices [OF assms(3,4)] nearest_tick_nonneg [OF assms(2)]
    nearest_tick_nonneg(2) [OF assms(1)]
  by auto

lemma reachable_quoted_high: "reachable_vol mb ma quoted_high"
  using reachable_vol.vol_step [OF reachable_vol.vol_init, where e = high_update
      and minimum_bid = mb and maximum_ask = ma]
  by (simp only: step_high fst_conv)

text \<open>
  C8 as stated fails for the sign of a quote price. The volatility variant widens its spread
  by half the ratio of the window's standard deviation to the mid price. After one update at
  mid price 100000 the trader is in the reachable state \<open>quoted_high\<close>; an update with best
  bid 100 and best ask 300 then gives the window 100000, 200, standard deviation 49900 and
  spread percentage 124.7511, and the buy order is sent at \<open>-24800\<close>.
\<close>

theorem gateway_price_negative_counterexample:
  "reachable_vol 1 2147483647 quoted_high
   \<and> snd (step_vol 1 2147483647 collapse_update quoted_high) = Inr collapse_actions
   \<and> hd collapse_actions = SendInsertOrder 3 BUY (- 24800) 10 GOOD_FOR_DAY
   \<and> gateway_price (hd collapse_actions) = Some (- 24800)
   \<and> quote_prices_vol [100000, 200] 200 0 = (- 24800, 25100)"
  using reachable_quoted_high [where mb = 1 and ma = 2147483647]
    step_collapse [where mb = 1 and ma = 2147483647] quote_collapse
  by (simp add: collapse_actions_def)

text \<open>
  C8, amended. Every price a callback of either variant passes to the gateway, a quote price
  through \<^verbatim>\<open>send_insert_order\<close> or a hedge price through \<^verbatim>\<open>send_hedge_order\<close>, is a
  multiple of the tick size of 100 cents, in every state and for every callback. Hedge
  prices are non-negative when the venue's bounds are. The regression variant's quote prices
  are non-negative when the best bid and ask are. The volatility variant's quote prices are
  non-negative when the position is within the position limit and the standard deviation of
  the price window is at most half the mid price; without the last condition they can be
  negative. \<^verbatim>\<open>adjust_price\<close> rounds every input down to a multiple of the tick size: the
  result is the price minus its remainder modulo 100, for real and for integer prices.
\<close>

theorem gateway_prices:
  fixes s :: vol_trader and r :: reg_trader and t :: "'a trader_scheme"
  shows
   "(snd (step_vol mb ma e s) = Inr acts \<and> a \<in> set acts \<and> gateway_price a = Some p
       \<longrightarrow> 100 dvd p)
  \<and> (snd (step_reg polyfit mb ma e' r) = Inr acts' \<and> a' \<in> set acts' \<and> gateway_price a' = Some p'
       \<longrightarrow> 100 dvd p')
  \<and> (0 \<le> mb \<and> 0 \<le> ma \<and> h \<in> set (snd (check_hedge mb ma now t)) \<and> gateway_price h = Some q
       \<longrightarrow> 0 \<le> q)
  \<and> (snd (on_order_book_update_message_reg polyfit nb na instr sq (a0 # as) av (b0 # bs) bv r)
         = Inr racts
       \<and> 0 \<le> b0 \<and> 0 \<le> a0 \<and> ra \<in> set racts \<and> gateway_price ra = Some rp
       \<longrightarrow> 0 \<le> rp)
  \<and> (snd (on_order_book_update_message_vol nb na instr sq (a0 # as) av (b0 # bs) bv s)
         = Inr vacts
       \<and> \<bar>position s\<bar> \<le> POSITION_LIMIT
       \<and> np_std (map real_of_int
                  (deque_append AVG_WINDOW_vol (recent_prices s) ((b0 + a0) div 2)))
           \<le> real_of_int ((b0 + a0) div 2) / 2
       \<and> va \<in> set vacts \<and> gateway_price va = Some vp
       \<longrightarrow> 0 \<le> vp)
  \<and> real_of_int (adjust_price x) \<le> x \<and> x < real_of_int (adjust_price x) + 100
  \<and> 100 dvd adjust_price x
  \<and> real_of_int (adjust_price x) = x - 100 * frac (x / 100)
  \<and> adjust_price (real_of_int n) = n - n mod 100"
proof -
  have 1: "snd (step_vol mb ma e s) = Inr acts \<and> a \<in> set acts \<and> gateway_price a = Some p
       \<longrightarrow> 100 dvd p"
    using step_vol_prices by blast
  have 2: "snd (step_reg polyfit mb ma e' r) = Inr acts' \<and> a' \<in> set acts'
       \<and> gateway_price a' = Some p' \<longrightarrow> 100 dvd p'"
    using step_reg_prices by blast
  have 3: "0 \<le> mb \<and> 0 \<le> ma \<and> h \<in> set (snd (check_hedge mb ma now t))
       \<and> gateway_price h = Some q \<longrightarrow> 0 \<le> q"
    using hedge_prices_nonneg by blast
  have 4: "snd (on_order_book_update_message_reg polyfit nb na instr sq (a0 # as) av (b0 # bs) bv r)
         = Inr racts
       \<and> 0 \<le> b0 \<and> 0 \<le> a0 \<and> ra \<in> set racts \<and> gateway_price ra = Some rp
       \<longrightarrow> 0 \<le> rp"
    using reg_quotes_nonneg_cons by blast
  have 5: "snd (on_order_book_update_message_vol nb na instr sq (a0 # as) av (b0 # bs) bv s)
         = Inr vacts
       \<and> \<bar>position s\<bar> \<le> POSITION_LIMIT
       \<and> np_std (map real_of_int
                  (deque_append AVG_WINDOW_vol (recent_prices s) ((b0 + a0) div 2)))
           \<le> real_of_int ((b0 + a0) div 2) / 2
       \<and> va \<in> set vacts \<and> gateway_price va = Some vp
       \<longrightarrow> 0 \<le> vp"
    using vol_quotes_nonneg by blast
  show ?thesis
    using 1 2 3 4 5 adjust_price_rounds_down [of x] adjust_price_dvd [of x]
      adjust_price_frac [of x] adjust_price_int [of n]
    by blast
qed

theorem gateway_prices_witness:
  "snd (step_vol 1 2147483647 (OrderBookUpdate 0 0 FUTURE 21 [219] [5] [217] [5]) (fst init_vol))
     = Inr [SendInsertOrder 1 BUY 200 10 GOOD_FOR_DAY, CallLater 10 (CancelOrderCb 1),
            SendInsertOrder 2 SELL 200 10 GOOD_FOR_DAY, CallLater 10 (CancelOrderCb 2)]
   \<and> \<bar>position (fst init_vol)\<bar> \<le> POSITION_LIMIT
   \<and> np_std (map real_of_int (deque_append AVG_WINDOW_vol (recent_prices (fst init_vol))
         ((217 + 219) div 2))) \<le> real_of_int ((217 + 219) div 2) / 2
   \<and> snd (step_reg lstsq_slope 1 2147483647
           (OrderBookUpdate 0 0 FUTURE 21 [219] [5] [217] [5]) regression_before)
     = Inr [SendInsertOrder 1 BUY 200 10 GOOD_FOR_DAY, SendInsertOrder 2 SELL 200 10 GOOD_FOR_DAY]
   \<and> gateway_price (SendInsertOrder 1 BUY 200 10 GOOD_FOR_DAY) = Some 200
   \<and> (100::int) dvd 200 \<and> (0::int) \<le> 200
   \<and> snd (check_hedge 1 2147483647 159 armed_example)
     = [SendHedgeOrder 7 BUY 2147483600 5, CallLater 1 CheckHedgeCb]
   \<and> gateway_price (SendHedgeOrder 7 BUY 2147483600 5) = Some 2147483600
   \<and> (0::int) \<le> 2147483600
   \<and> adjust_price (217 + 76 / 100) = 200
   \<and> real_of_int (adjust_price (217 + 76 / 100)) = 217 + 76 / 100 - 100 * frac ((217 + 76 / 100) / 100)
   \<and> adjust_price (real_of_int 9989) = 9989 - 9989 mod 100"
proof -
  let ?u = "OrderBookUpdate 0 0 FUTURE 21 [219] [5] [217] [5]"
  let ?b = "SendInsertOrder 1 BUY 200 10 GOOD_FOR_DAY"
  let ?vacts = "[?b, CallLater 10 (CancelOrderCb 1),
            SendInsertOrder 2 SELL 200 10 GOOD_FOR_DAY, CallLater 10 (CancelOrderCb 2)]"
  let ?racts = "[?b, SendInsertOrder 2 SELL 200 10 GOOD_FOR_DAY]"
  let ?h = "SendHedgeOrder 7 BUY 2147483600 5"
  have vh: "snd (on_order_book_update_message_vol 0 0 FUTURE 21 (219 # []) [5] (217 # []) [5]
      (fst init_vol)) = Inr ?vacts"
    by (simp only: step_low [where mb = 1 and ma = 2147483647, unfolded step_vol.simps])
  have v: "snd (step_vol 1 2147483647 ?u (fst init_vol)) = Inr ?vacts"
    by (rule step_low)
  have std: "np_std (map real_of_int (deque_append AVG_WINDOW_vol (recent_prices (fst init_vol))
         ((217 + 219) div 2))) \<le> real_of_int ((217 + 219) div 2) / 2"
    by (simp add: init_vol_def deque_append_def AVG_WINDOW_vol_def np_std_def np_mean_def)
  have pos: "\<bar>position (fst init_vol)\<bar> \<le> POSITION_LIMIT"
    by (simp add: init_vol_def POSITION_LIMIT_def)
  have h: "\<bar>lstsq_slope (map real_of_int etf_window) (map real_of_int fut_window) - 2\<bar>
      \<le> 1 / 1000"
    by (simp add: scenario_slope)
  have rh: "snd (on_order_book_update_message_reg lstsq_slope 0 0 FUTURE 21 (219 # []) [5]
      (217 # []) [5] regression_before) = Inr ?racts"
    by (simp only: scenario_run [where polyfit = lstsq_slope, OF h] snd_conv)
  have r: "snd (step_reg lstsq_slope 1 2147483647 ?u regression_before) = Inr ?racts"
    using rh by simp
  have c: "snd (check_hedge 1 2147483647 159 armed_example) = [?h, CallLater 1 CheckHedgeCb]"
    by (simp add: check_hedge_def armed_example_def HEDGE_BOUNDARY_def hedge_limit_exceeded
          MAX_ASK_NEAREST_TICK_def TICK_SIZE_IN_CENTS_def)
  note g = gateway_prices [where mb = 1 and ma = 2147483647 and e = ?u
      and s = "fst init_vol" and acts = ?vacts and a = ?b and p = 200
      and polyfit = lstsq_slope and e' = ?u and r = regression_before and acts' = ?racts
      and a' = ?b and p' = 200
      and h = ?h and now = 159 and t = armed_example and q = 2147483600
      and nb = 0 and na = 0 and instr = FUTURE and sq = 21 and ?a0.0 = 219 and as = "[]"
      and av = "[5]" and ?b0.0 = 217 and bs = "[]" and bv = "[5]"
      and racts = ?racts and ra = ?b and rp = 200
      and vacts = ?vacts and va = ?b and vp = 200
      and x = "217 + 76 / 100" and n = 9989]
  have d1: "(100::int) dvd 200" using g v by simp
  have d2: "(100::int) dvd 200" using g r by simp
  have n1: "(0::int) \<le> 2147483600" using g c by simp
  have n2: "(0::int) \<le> 200" using g rh by simp
  have n3: "(0::int) \<le> 200" using g vh pos std by simp
  have a9: "adjust_price (217 + 76 / 100) = 200"
    by (simp add: adjust_price_def TICK_SIZE_IN_CENTS_def)
  have f: "real_of_int (adjust_price (217 + 76 / 100))
        = 217 + 76 / 100 - 100 * frac ((217 + 76 / 100) / 100)
      \<and> adjust_price (real_of_int 9989) = 9989 - 9989 mod 100"
    using g by blast
  show ?thesis
    using v r c std pos a9 f by simp
qed

end
